theory Spec2Isabelle
  imports Complex_Main "HOL-Library.Multiset"
begin

text \<open>
  A model of \<open>jquery.lace.js\<close>, a jQuery plugin that lays the blocks of a container out
  in columns of a fixed width. The instance (\<open>Lace\<close>) and the part of the page it works
  on are one state that every method takes and gives back; a method that may not end
  returns an option, and one that may throw returns an outcome. The functions keep the
  names of the methods, without the leading underscore.
\<close>

section \<open>JavaScript numbers\<close>

text \<open>
  The plugin computes with JavaScript numbers, which are IEEE 754 doubles. The model has
  two views of them. A column count, a column number or a loop counter is an integer or
  one of Infinity, -Infinity and NaN (\<open>jsnum\<close>): a count comes out of \<open>Math.floor\<close> or is
  the setting \<open>minCols\<close>, which is taken to be an integer. A width or a padding is any
  double (\<open>double\<close>, below), and the arithmetic on widths rounds as the machine does.
\<close>

datatype jsnum = Fin int | PInf | NInf | NaN

text \<open>\<open>a < b\<close>: every comparison with NaN is false.\<close>

fun js_lt :: "jsnum \<Rightarrow> jsnum \<Rightarrow> bool" where
  "js_lt NaN _ = False"
| "js_lt _ NaN = False"
| "js_lt (Fin a) (Fin b) = (a < b)"
| "js_lt (Fin a) PInf = True"
| "js_lt (Fin a) NInf = False"
| "js_lt PInf _ = False"
| "js_lt NInf NInf = False"
| "js_lt NInf _ = True"

text \<open>\<open>a > b\<close> is \<open>b < a\<close>; \<open>a >= b\<close> is again false on NaN.\<close>

definition js_gt :: "jsnum \<Rightarrow> jsnum \<Rightarrow> bool" where
  "js_gt a b = js_lt b a"


text \<open>\<open>a == b\<close> on numbers: NaN is not equal to itself.\<close>

definition js_eq :: "jsnum \<Rightarrow> jsnum \<Rightarrow> bool" where
  "js_eq a b = (a \<noteq> NaN \<and> a = b)"

text \<open>
  \<open>a % b\<close>: the remainder takes the sign of the dividend; it is NaN for an infinite or NaN
  dividend and for a zero or NaN divisor, and the dividend itself for an infinite divisor.
\<close>

fun js_mod :: "jsnum \<Rightarrow> jsnum \<Rightarrow> jsnum" where
  "js_mod (Fin a) (Fin b) = (if b = 0 then NaN else Fin (sgn a * (\<bar>a\<bar> mod \<bar>b\<bar>)))"
| "js_mod (Fin a) PInf = Fin a"
| "js_mod (Fin a) NInf = Fin a"
| "js_mod _ _ = NaN"

text \<open>\<open>a + k\<close> and \<open>a - k\<close> for an integer \<open>k\<close>.\<close>

fun js_add :: "jsnum \<Rightarrow> int \<Rightarrow> jsnum" where
  "js_add (Fin a) k = Fin (a + k)"
| "js_add x k = x"

definition js_sub :: "jsnum \<Rightarrow> int \<Rightarrow> jsnum" where
  "js_sub a k = js_add a (- k)"

text \<open>\<open>Math.ceil(a / 2)\<close>.\<close>

fun js_ceil_half :: "jsnum \<Rightarrow> jsnum" where
  "js_ceil_half (Fin a) = Fin (- ((- a) div 2))"
| "js_ceil_half x = x"

text \<open>
  Truthiness of \<open>cache.lastColAppended\<close>, which holds \<open>null\<close> (\<open>None\<close>) or a number:
  \<open>null\<close>, 0 and NaN are falsy.
\<close>

fun truthy :: "jsnum option \<Rightarrow> bool" where
  "truthy None = False"
| "truthy (Some NaN) = False"
| "truthy (Some (Fin a)) = (a \<noteq> 0)"
| "truthy (Some _) = True"

section \<open>Doubles\<close>

text \<open>
  A finite double is a rational \<open>m * 2 ^ e\<close> with \<open>\<bar>m\<bar> < 2 ^ 53\<close> and \<open>e \<ge> - 1074\<close>, of
  magnitude below \<open>2 ^ 1024\<close>; it is given by its value. The two zeros are not told
  apart: where the sign of a zero matters, in a division by it, the zero is taken to be
  \<open>+0\<close>, which is what a sum or a difference of the plugin yields unless \<open>-0\<close> itself is
  passed in.
\<close>

datatype double = Finite rat | Infinity | NegInfinity | NotANumber

text \<open>
  \<open>log2i n\<close> is the position of the leading bit of an integer \<open>n \<ge> 1\<close>, and \<open>ilog2 x\<close> the
  exponent \<open>e\<close> with \<open>2 ^ e \<le> x < 2 ^ (e + 1)\<close> of a positive rational; \<open>ilog2 0\<close> is
  \<open>- 1\<close>.
\<close>

function log2i :: "int \<Rightarrow> int" where
  "log2i n = (if n < 2 then 0 else 1 + log2i (n div 2))"
  by auto
termination
  by (relation "measure nat") auto

declare log2i.simps [simp del]

definition ilog2 :: "rat \<Rightarrow> int" where
  "ilog2 x =
     (if 1 \<le> x then log2i \<lfloor>x\<rfloor>
      else - (log2i (\<lceil>1 / x\<rceil> - 1) + 1))"

text \<open>The nearest integer, a tie going to the even one.\<close>

definition round_half_even :: "rat \<Rightarrow> int" where
  "round_half_even z =
     (let f = \<lfloor>z\<rfloor>; d = z - of_int f
      in if d < 1 / 2 then f else if 1 / 2 < d then f + 1
         else if even f then f else f + 1)"

text \<open>
  The double that an exact result is rounded to (to nearest, ties to even, as every
  arithmetic operation of the language rounds). For a value of exponent \<open>e\<close> the doubles
  are the multiples of \<open>2 ^ (e - 52)\<close>, and of \<open>2 ^ - 1074\<close> in the subnormal range; a
  rounded value of exponent 1024 or more, which is \<open>2 ^ 1024\<close> or more in magnitude, is
  an infinity.
\<close>

definition rd :: "rat \<Rightarrow> double" where
  "rd x =
     (if x = 0 then Finite 0
      else let e = max (ilog2 \<bar>x\<bar>) (- 1022);
               q = 2 powi (e - 52);
               y = of_int (round_half_even (x / q)) * q
           in if 1024 \<le> ilog2 \<bar>y\<bar> then (if 0 < x then Infinity else NegInfinity)
              else Finite y)"


text \<open>
  The sign of a double that is not NaN, and the infinity of a sign; no sign stands for
  an undefined result.
\<close>

fun d_sgn :: "double \<Rightarrow> int" where
  "d_sgn (Finite a) = (if 0 < a then 1 else if a < 0 then - 1 else 0)"
| "d_sgn Infinity = 1"
| "d_sgn NegInfinity = - 1"
| "d_sgn NotANumber = 0"

definition inf_of :: "int \<Rightarrow> double" where
  "inf_of k = (if 0 < k then Infinity else if k < 0 then NegInfinity else NotANumber)"

text \<open>\<open>a + b\<close>, \<open>a - b\<close>, \<open>a * b\<close> and \<open>a / b\<close> on doubles.\<close>

fun d_add :: "double \<Rightarrow> double \<Rightarrow> double" where
  "d_add NotANumber _ = NotANumber"
| "d_add _ NotANumber = NotANumber"
| "d_add (Finite a) (Finite b) = rd (a + b)"
| "d_add (Finite a) b = b"
| "d_add a (Finite b) = a"
| "d_add a b = (if a = b then a else NotANumber)"

fun d_neg :: "double \<Rightarrow> double" where
  "d_neg (Finite a) = Finite (- a)"
| "d_neg Infinity = NegInfinity"
| "d_neg NegInfinity = Infinity"
| "d_neg NotANumber = NotANumber"

definition d_sub :: "double \<Rightarrow> double \<Rightarrow> double" where
  "d_sub a b = d_add a (d_neg b)"

fun d_mul :: "double \<Rightarrow> double \<Rightarrow> double" where
  "d_mul NotANumber _ = NotANumber"
| "d_mul _ NotANumber = NotANumber"
| "d_mul (Finite a) (Finite b) = rd (a * b)"
| "d_mul a b = inf_of (d_sgn a * d_sgn b)"

fun d_div :: "double \<Rightarrow> double \<Rightarrow> double" where
  "d_div NotANumber _ = NotANumber"
| "d_div _ NotANumber = NotANumber"
| "d_div (Finite a) (Finite b) = (if b = 0 then inf_of (d_sgn (Finite a)) else rd (a / b))"
| "d_div (Finite a) b = Finite 0"
| "d_div a (Finite b) = inf_of (if b < 0 then - d_sgn a else d_sgn a)"
| "d_div a b = NotANumber"

text \<open>\<open>Math.floor\<close>, whose result is a count, and a count as a double.\<close>

fun d_floor :: "double \<Rightarrow> jsnum" where
  "d_floor (Finite a) = Fin \<lfloor>a\<rfloor>"
| "d_floor Infinity = PInf"
| "d_floor NegInfinity = NInf"
| "d_floor NotANumber = NaN"

fun to_double :: "jsnum \<Rightarrow> double" where
  "to_double (Fin n) = Finite (of_int n)"
| "to_double PInf = Infinity"
| "to_double NInf = NegInfinity"
| "to_double NaN = NotANumber"

section \<open>The state of a grid\<close>

text \<open>
  A DOM element is known by its identity. The attributes and measurements that the plugin
  reads live in a store indexed by the element, so that setting \<open>data-sort-index\<close> on an
  element is seen wherever the element stands.
\<close>

type_synonym elem = nat

text \<open>
  \<open>this.settings\<close> after \<open>$.extend({}, defaults, options)\<close>. \<open>selector\<close> and \<open>colPadding\<close>
  are the two fields that the constructor tests against \<open>null\<close>, so they may hold it
  (\<open>None\<close>); as a number \<open>null\<close> is 0. The widths and paddings are finite doubles, given
  by their values (\<open>representable\<close> says that a value is one); \<open>minCols\<close> is an integer.
\<close>

record settings =
  cols :: jsnum
  colWidth :: rat
  colPadding :: "rat option"
  minCols :: int
  windowPadding :: rat
  selector :: "string option"
  bootstrapped :: bool
  centered :: bool

record cache =
  cache_cols :: jsnum
  lastColAppended :: "jsnum option"
  itemIndex :: nat

text \<open>
  The instance and the part of the page it works on.
  \<^item> \<open>columns\<close>: the \<open>.lace-col\<close> children of the container in document order, each with
    the elements it holds. \<open>_createColumns\<close> is the only code that creates columns, numbers
    them \<open>1..cols\<close> and prepends them, and every later caller removes the old columns
    first; so the column with \<open>data-sort-index = k\<close> is the \<open>k\<close>-th of the list, and the
    columns come before every other child.
  \<^item> \<open>loose\<close>: the elements of the grid that are children of the container itself, in
    document order.
  \<^item> \<open>sortIndex\<close>: the \<open>data-sort-index\<close> attribute of an element, \<open>None\<close> when absent.
  \<^item> \<open>height\<close>: the rendered height of an element. The rendered height of a column,
    \<open>$(col).height()\<close>, is taken to be the sum of the heights of its elements.
  \<^item> \<open>elWidth\<close>, \<open>refWidth\<close>: what \<open>this.$el.width()\<close> and \<open>$centerRefDiv.width()\<close>
    report, finite doubles given by their values; \<open>cssWidth\<close>: the width set on the container by \<open>_setContainerWidth\<close>;
    \<open>clearer\<close>: whether the container holds the \<open>.lace-clearer\<close> element.
\<close>

record lace =
  settings :: settings
  cache :: cache
  columns :: "elem list list"
  loose :: "elem list"
  sortIndex :: "elem \<Rightarrow> nat option"
  height :: "elem \<Rightarrow> nat"
  elWidth :: rat
  refWidth :: rat
  cssWidth :: "double option"
  clearer :: bool

section \<open>Column count\<close>

text \<open>\<open>null\<close> as a number.\<close>

definition num_of :: "rat option \<Rightarrow> rat" where
  "num_of p = (case p of None \<Rightarrow> 0 | Some v \<Rightarrow> v)"

text \<open>
  \<open>_getColumnCount\<close>. The subtraction, the addition and the division each round; the
  comparison with \<open>minCols\<close> is exact.
\<close>

definition getColumnCount :: "lace \<Rightarrow> jsnum" where
  "getColumnCount s =
     (let elWidth' = (if centered (settings s)
                      then d_sub (Finite (refWidth s)) (Finite (windowPadding (settings s)))
                      else d_sub (Finite (elWidth s)) (Finite (windowPadding (settings s))));
          colWidth' = d_add (Finite (colWidth (settings s)))
                            (Finite (num_of (colPadding (settings s))));
          answer = d_floor (d_div elWidth' colWidth')
      in if js_lt answer (Fin (minCols (settings s))) then Fin (minCols (settings s))
         else answer)"

section \<open>Column heights\<close>

definition colHeight :: "lace \<Rightarrow> elem list \<Rightarrow> nat" where
  "colHeight s c = sum_list (map (height s) c)"

text \<open>
  The two scans of \<open>_getColumnHeights\<close> over \<open>heights\<close>, each with its \<open>lastHeight\<close>
  (\<open>null\<close> before the first column) and the column number it records.
\<close>

definition shortest_step :: "nat option \<times> nat option \<Rightarrow> nat \<times> nat \<Rightarrow> nat option \<times> nat option" where
  "shortest_step acc p =
     (case (acc, p) of ((lastHeight, shortestCol), (i, v)) \<Rightarrow>
        (case lastHeight of
           None \<Rightarrow> (Some v, Some (i + 1))
         | Some l \<Rightarrow> if v < l then (Some v, Some (i + 1)) else (lastHeight, shortestCol)))"

definition highest_step :: "nat option \<times> nat option \<Rightarrow> nat \<times> nat \<Rightarrow> nat option \<times> nat option" where
  "highest_step acc p =
     (case (acc, p) of ((lastHeight, highestCol), (i, v)) \<Rightarrow>
        (case lastHeight of
           None \<Rightarrow> (Some v, Some (i + 1))
         | Some l \<Rightarrow> if v > l then (Some v, Some (i + 1)) else (lastHeight, highestCol)))"

definition shortest_scan :: "nat list \<Rightarrow> nat option \<times> nat option" where
  "shortest_scan heights = foldl shortest_step (None, None) (enumerate 0 heights)"

definition highest_scan :: "nat list \<Rightarrow> nat option \<times> nat option" where
  "highest_scan heights = foldl highest_step (None, None) (enumerate 0 heights)"

text \<open>
  The result of \<open>_getColumnHeights\<close>; \<open>highest\<close> and \<open>shortest\<close> are the numbers of the
  columns that \<open>$highest\<close> and \<open>$shortest\<close> select.
\<close>

record colHeights =
  highest :: nat
  highestValue :: nat
  shortest :: nat
  shortestValue :: nat

definition heights_of :: "nat list \<Rightarrow> colHeights option" where
  "heights_of heights =
     (case (shortest_scan heights, highest_scan heights) of
        ((Some sv, Some sc), (Some hv, Some hc)) \<Rightarrow>
          Some \<lparr>highest = hc, highestValue = hv, shortest = sc, shortestValue = sv\<rparr>
      | _ \<Rightarrow> None)"

text \<open>
  \<open>_getColumnHeights\<close> returns \<open>undefined\<close> (\<open>None\<close>) when the container has no column.
  The columns of the model are in the order of their numbers already, which is what the
  call of \<open>_sortItemsByIndex\<close> on them establishes.
\<close>

definition getColumnHeights :: "lace \<Rightarrow> colHeights option" where
  "getColumnHeights s =
     (if columns s = [] then None
      else heights_of (map (colHeight s) (columns s)))"

section \<open>Container width\<close>

definition getContainerWidth :: "lace \<Rightarrow> double" where
  "getContainerWidth s =
     (let colWithPadding = d_add (Finite (colWidth (settings s)))
                                 (Finite (num_of (colPadding (settings s))))
      in d_sub (d_mul (to_double (getColumnCount s)) colWithPadding)
               (Finite (num_of (colPadding (settings s)))))"

definition setContainerWidth :: "lace \<Rightarrow> lace" where
  "setContainerWidth s = s\<lparr>cssWidth := Some (getContainerWidth s)\<rparr>"

section \<open>Sorting by index\<close>

text \<open>\<open>parseInt\<close> of the attribute: NaN when the element has none.\<close>

definition parseInt :: "nat option \<Rightarrow> jsnum" where
  "parseInt a = (case a of None \<Rightarrow> NaN | Some n \<Rightarrow> Fin (int n))"

definition compare_index :: "jsnum \<Rightarrow> jsnum \<Rightarrow> int" where
  "compare_index a b = (if js_gt a b then 1 else if js_lt a b then - 1 else 0)"

text \<open>
  \<open>Array.prototype.sort\<close> with the comparator above. Where every element has an index,
  the comparator is a consistent order and the language fixes the result: ascending, with
  elements of the same index in the order they had; where no element has one, the
  comparator is constantly 0 and the order is kept. The model is the stable insertion sort
  driven by the comparator, which gives these results. Where only some elements have an
  index, an element without one compares equal to every other, the comparator is not a
  consistent order, the language leaves the result to the engine, and the insertion sort
  stands for one order that an engine may give; what is proved about the order of the
  sorted elements is therefore stated for elements that all have an index, no two the
  same.
\<close>

fun insert_by :: "(elem \<Rightarrow> nat option) \<Rightarrow> elem \<Rightarrow> elem list \<Rightarrow> elem list" where
  "insert_by f x [] = [x]"
| "insert_by f x (y # ys) =
     (if 0 < compare_index (parseInt (f x)) (parseInt (f y)) then y # insert_by f x ys
      else x # y # ys)"

definition sortItemsByIndex :: "lace \<Rightarrow> elem list \<Rightarrow> elem list" where
  "sortItemsByIndex s items = foldr (insert_by (sortIndex s)) items []"

section \<open>Columns and the placement of items\<close>

text \<open>
  \<open>_createColumns\<close>: \<open>for (var i = this.settings.cols; i > 0; i--)\<close> prepends a column.
  With \<open>cols = Infinity\<close> the loop does not end, which is the value \<open>None\<close>.
\<close>

partial_function (option) createColumns_loop :: "jsnum \<Rightarrow> elem list list \<Rightarrow> elem list list option" where
  "createColumns_loop i cs =
     (if js_gt i (Fin 0) then createColumns_loop (js_sub i 1) ([] # cs) else Some cs)"

declare createColumns_loop.simps [code]

definition createColumns :: "lace \<Rightarrow> lace option" where
  "createColumns s =
     (case createColumns_loop (cols (settings s)) (columns s) of
        None \<Rightarrow> None
      | Some cs \<Rightarrow> Some (s\<lparr>columns := cs\<rparr>))"

text \<open>
  The elements that \<open>this.$el.find(selector)\<close> and \<open>this.$el.find('> ' + selector)\<close>
  select, in document order. The elements of the grid are those that match the selector;
  with \<open>selector = null\<close> nothing matches.
\<close>

definition find_items :: "lace \<Rightarrow> elem list" where
  "find_items s =
     (case selector (settings s) of None \<Rightarrow> [] | Some sel \<Rightarrow> concat (columns s) @ loose s)"

definition find_children :: "lace \<Rightarrow> elem list" where
  "find_children s = (case selector (settings s) of None \<Rightarrow> [] | Some sel \<Rightarrow> loose s)"

text \<open>
  The column that \<open>'> .lace-col[data-sort-index="' + num + '"]'\<close> selects, as a position
  in \<open>columns\<close>; none when \<open>num\<close> is not the number of a column.
\<close>

definition find_col :: "elem list list \<Rightarrow> jsnum \<Rightarrow> nat option" where
  "find_col cs num =
     (case num of
        Fin k \<Rightarrow> if 1 \<le> k \<and> k \<le> int (length cs) then Some (nat (k - 1)) else None
      | _ \<Rightarrow> None)"

text \<open>Taking an element out of the container, and moving it to the end of a column.\<close>

definition detach :: "elem \<Rightarrow> lace \<Rightarrow> lace" where
  "detach x s = s\<lparr>columns := map (removeAll x) (columns s), loose := removeAll x (loose s)\<rparr>"

definition appendTo :: "elem \<Rightarrow> nat \<Rightarrow> lace \<Rightarrow> lace" where
  "appendTo x k s =
     (let s' = detach x s in s'\<lparr>columns := (columns s')[k := columns s' ! k @ [x]]\<rparr>)"

text \<open>The number \<open>num\<close> that the body of \<open>_moveItemsIntoCols\<close> computes for position \<open>i\<close>.\<close>

definition last_num :: "jsnum option \<Rightarrow> jsnum" where
  "last_num l = (case l of None \<Rightarrow> Fin 0 | Some n \<Rightarrow> n)"

definition nextCol :: "lace \<Rightarrow> nat \<Rightarrow> jsnum" where
  "nextCol s i =
     (if truthy (lastColAppended (cache s))
      then js_add (js_mod (last_num (lastColAppended (cache s))) (cols (settings s))) 1
      else js_add (js_mod (Fin (int i)) (cols (settings s))) 1)"

text \<open>
  One round of the loop of \<open>_moveItemsIntoCols\<close>. \<open>appendTo\<close> on an empty selection
  leaves the element where it is.
\<close>

definition moveItem :: "lace \<Rightarrow> nat \<times> elem \<Rightarrow> lace" where
  "moveItem s p =
     (case p of (i, item) \<Rightarrow>
        let s1 = s\<lparr>sortIndex := (sortIndex s)(item := Some (itemIndex (cache s)))\<rparr>;
            num = nextCol s1 i;
            s2 = s1\<lparr>cache := (cache s1)\<lparr>lastColAppended := Some num\<rparr>\<rparr>;
            s3 = (case find_col (columns s2) num of
                    None \<Rightarrow> s2
                  | Some k \<Rightarrow> appendTo item k s2)
        in s3\<lparr>cache := (cache s3)\<lparr>itemIndex := itemIndex (cache s3) + 1\<rparr>\<rparr>)"

definition moveItemsIntoCols :: "elem list \<Rightarrow> lace \<Rightarrow> lace" where
  "moveItemsIntoCols items s = foldl moveItem s (enumerate 0 items)"

section \<open>Relayout and resize\<close>

definition reLayout :: "lace \<Rightarrow> lace option" where
  "reLayout s =
     (let found = find_items s;
          s1 = s\<lparr>columns := map (filter (\<lambda>x. x \<notin> set found)) (columns s),
                  loose := filter (\<lambda>x. x \<notin> set found) (loose s) @ found\<rparr>;
          s2 = s1\<lparr>columns := []\<rparr>;
          s3 = (if centered (settings s2) then setContainerWidth s2 else s2)
      in case createColumns s3 of
           None \<Rightarrow> None
         | Some s4 \<Rightarrow>
             let sortedItems = sortItemsByIndex s4 (find_items s4);
                 s5 = s4\<lparr>cache := (cache s4)\<lparr>itemIndex := 0, lastColAppended := None\<rparr>\<rparr>
             in Some (moveItemsIntoCols sortedItems s5))"

definition resize :: "lace \<Rightarrow> lace option" where
  "resize s =
     (if js_eq (cache_cols (cache s)) (getColumnCount s) then Some s
      else let s1 = s\<lparr>settings := (settings s)\<lparr>cols := getColumnCount s\<rparr>\<rparr>;
               s2 = s1\<lparr>cache := (cache s1)\<lparr>cache_cols := cols (settings s1)\<rparr>\<rparr>
           in reLayout s2)"

section \<open>The balancer\<close>

text \<open>
  A call either returns or throws; in both cases the instance is left in some state.
  \<open>evenBottom\<close> throws a TypeError when it reads \<open>$cols.highestValue\<close> of the
  \<open>undefined\<close> that \<open>_getColumnHeights\<close> returns for a container without columns.
\<close>

datatype 'a outcome = Returns 'a | Throws 'a

fun state_of :: "'a outcome \<Rightarrow> 'a" where
  "state_of (Returns s) = s"
| "state_of (Throws s) = s"

fun returns :: "'a outcome \<Rightarrow> bool" where
  "returns (Returns s) = True"
| "returns (Throws s) = False"

text \<open>
  The body of the loop: the last element of the highest column goes to the end of the
  shortest one.
\<close>

definition evenBottom_body :: "lace \<Rightarrow> lace outcome" where
  "evenBottom_body s =
     (case getColumnHeights s of
        None \<Rightarrow> Throws s
      | Some c \<Rightarrow>
          let items = (case selector (settings s) of
                         None \<Rightarrow> []
                       | Some sel \<Rightarrow> columns s ! (highest c - 1))
          in if items = [] then Returns s
             else Returns (appendTo (last items) (shortest c - 1) s))"

partial_function (option) evenBottom_loop :: "nat \<Rightarrow> lace \<Rightarrow> lace outcome option" where
  "evenBottom_loop i s =
     (if js_lt (Fin (int i)) (js_ceil_half (cache_cols (cache s)))
      then (let r = evenBottom_body s
            in if returns r then evenBottom_loop (i + 1) (state_of r) else Some r)
      else Some (Returns s))"

declare evenBottom_loop.simps [code]

definition evenBottom :: "lace \<Rightarrow> lace outcome option" where
  "evenBottom s =
     (let items = find_items s
      in if items = [] then Some (Returns s)
         else case getColumnHeights s of
                None \<Rightarrow> Some (Throws s)
              | Some c \<Rightarrow>
                  if \<bar>int (highestValue c) - int (shortestValue c)\<bar> \<le> 500 then Some (Returns s)
                  else if length items = 1 then Some (Returns s)
                  else evenBottom_loop 0 s)"

text \<open>
  The imbalance that \<open>evenBottom\<close> tests, \<open>Math.abs($cols.highestValue - $cols.shortestValue)\<close>;
  0 for a container without columns.
\<close>

definition imbalance :: "lace \<Rightarrow> int" where
  "imbalance s =
     (case getColumnHeights s of
        None \<Rightarrow> 0
      | Some c \<Rightarrow> \<bar>int (highestValue c) - int (shortestValue c)\<bar>)"

text \<open>
  The element that a round of the loop would move, if any, is no higher than the
  imbalance; and the same for the next \<open>n\<close> rounds.
\<close>

definition fits :: "lace \<Rightarrow> bool" where
  "fits s =
     (case getColumnHeights s of
        None \<Rightarrow> True
      | Some c \<Rightarrow>
          (let items = (case selector (settings s) of
                          None \<Rightarrow> []
                        | Some sel \<Rightarrow> columns s ! (highest c - 1))
           in items = [] \<or> int (height s (last items)) \<le> imbalance s))"

fun fits_rounds :: "nat \<Rightarrow> lace \<Rightarrow> bool" where
  "fits_rounds 0 s = True"
| "fits_rounds (Suc n) s = (fits s \<and> fits_rounds n (state_of (evenBottom_body s)))"

section \<open>The public methods\<close>

definition append_items :: "elem list \<Rightarrow> lace \<Rightarrow> lace outcome option" where
  "append_items items s =
     (if items = [] then Some (Returns s)
      else case evenBottom s of
             None \<Rightarrow> None
           | Some r \<Rightarrow>
               if returns r then Some (Returns (moveItemsIntoCols items (state_of r)))
               else Some r)"


definition removeAll_items :: "lace \<Rightarrow> lace option" where
  "removeAll_items s = createColumns (s\<lparr>columns := [], loose := []\<rparr>)"


section \<open>Construction\<close>

text \<open>
  The options object passed to the plugin: \<open>None\<close> is a key left out. \<open>colPadding\<close> may
  also be given as \<open>null\<close> (\<open>Some None\<close>), which \<open>$.extend\<close> copies.
\<close>

record options =
  opt_colWidth :: "rat option"
  opt_colPadding :: "rat option option"
  opt_minCols :: "int option"
  opt_windowPadding :: "rat option"
  opt_selector :: "string option"
  opt_bootstrapped :: "bool option"
  opt_centered :: "bool option"

definition defaults :: settings where
  "defaults = \<lparr>cols = Fin 1, colWidth = 0, colPadding = Some 0, minCols = 1,
     windowPadding = 50, selector = None, bootstrapped = True, centered = False\<rparr>"

definition jq_extend :: "settings \<Rightarrow> options \<Rightarrow> settings" where
  "jq_extend d opts =
     d\<lparr>colWidth := (case opt_colWidth opts of None \<Rightarrow> colWidth d | Some v \<Rightarrow> v),
       colPadding := (case opt_colPadding opts of None \<Rightarrow> colPadding d | Some v \<Rightarrow> v),
       minCols := (case opt_minCols opts of None \<Rightarrow> minCols d | Some v \<Rightarrow> v),
       windowPadding := (case opt_windowPadding opts of None \<Rightarrow> windowPadding d | Some v \<Rightarrow> v),
       selector := (case opt_selector opts of None \<Rightarrow> selector d | Some v \<Rightarrow> Some v),
       bootstrapped := (case opt_bootstrapped opts of None \<Rightarrow> bootstrapped d | Some v \<Rightarrow> v),
       centered := (case opt_centered opts of None \<Rightarrow> centered d | Some v \<Rightarrow> v)\<rparr>"

text \<open>
  The container element handed to the constructor: its children that are elements of the
  grid, their attributes and heights, and the measured widths.
\<close>

record page =
  page_children :: "elem list"
  page_sortIndex :: "elem \<Rightarrow> nat option"
  page_height :: "elem \<Rightarrow> nat"
  page_elWidth :: rat
  page_refWidth :: rat
  page_clearer :: bool

text \<open>The messages that the constructor passes to \<open>error\<close>, one constructor per text.\<close>

datatype config_error = Missing_selector | Missing_colWidth | Missing_colPadding

text \<open>
  \<open>_init\<close>. Subscribing to the resize event and marking the container as \<open>laced\<close> leave
  the state of the grid as it is.
\<close>

definition init :: "lace \<Rightarrow> lace outcome option" where
  "init s =
     (case createColumns s of
        None \<Rightarrow> None
      | Some s1 \<Rightarrow>
          (case (if bootstrapped (settings s1)
                 then evenBottom (moveItemsIntoCols (find_children s1) s1)
                 else Some (Returns s1)) of
             None \<Rightarrow> None
           | Some r \<Rightarrow>
               if returns r
               then (let s2 = state_of r;
                         s3 = (if centered (settings s2) then setContainerWidth s2 else s2)
                     in Some (Returns (s3\<lparr>clearer := True\<rparr>)))
               else Some r))"

text \<open>
  The instance when the constructor first calls \<open>_getColumnCount\<close>: the settings are
  merged, the container has no column yet, and \<open>this.cache\<close> is still to be assigned.
\<close>

definition fresh :: "page \<Rightarrow> options \<Rightarrow> lace" where
  "fresh el opts =
     \<lparr>settings = jq_extend defaults opts,
      cache = \<lparr>cache_cols = cols (jq_extend defaults opts), lastColAppended = None,
                itemIndex = 0\<rparr>,
      columns = [], loose = page_children el, sortIndex = page_sortIndex el,
      height = page_height el, elWidth = page_elWidth el,
      refWidth = page_refWidth el, cssWidth = None, clearer = page_clearer el\<rparr>"

text \<open>
  The constructor \<open>Lace(el, options)\<close>: the messages reported, and the outcome of
  \<open>_init\<close> (\<open>None\<close> when it does not return).
\<close>

definition Lace :: "page \<Rightarrow> options \<Rightarrow> config_error list \<times> lace outcome option" where
  "Lace el opts =
     (let s0 = fresh el opts;
          s1 = s0\<lparr>settings := (settings s0)\<lparr>cols := getColumnCount s0\<rparr>\<rparr>;
          s2 = s1\<lparr>cache := \<lparr>cache_cols = getColumnCount s1, lastColAppended = None,
                                itemIndex = 0\<rparr>\<rparr>;
          errors = (if selector (settings s2) = None then [Missing_selector] else [])
                   @ (if colWidth (settings s2) = 0 then [Missing_colWidth] else [])
                   @ (if colPadding (settings s2) = None then [Missing_colPadding] else [])
      in (errors, init s2))"

section \<open>Notions for the statements\<close>

text \<open>The number of columns that \<open>_createColumns\<close> makes for a count that is not \<open>Infinity\<close>.\<close>

definition ncols :: "jsnum \<Rightarrow> nat" where
  "ncols c = (case c of Fin k \<Rightarrow> nat k | _ \<Rightarrow> 0)"

text \<open>
  The attributes after the elements \<open>xs\<close> were given the indices \<open>k\<close>, \<open>k + 1\<close>, ... one
  after the other.
\<close>

fun renumber :: "(elem \<Rightarrow> nat option) \<Rightarrow> nat \<Rightarrow> elem list \<Rightarrow> elem \<Rightarrow> nat option" where
  "renumber f k [] = f"
| "renumber f k (x # xs) = renumber (f(x := Some k)) (Suc k) xs"

text \<open>The index of an element as a sorting key, where it has one.\<close>

definition key_of :: "(elem \<Rightarrow> nat option) \<Rightarrow> elem \<Rightarrow> nat" where
  "key_of f x = (case f x of None \<Rightarrow> 0 | Some n \<Rightarrow> n)"


text \<open>
  The grid at the point where \<open>_reLayout\<close> starts to place the elements: they are
  children of the container again, the columns are new, and the counters are reset.
\<close>

definition relayout_start :: "lace \<Rightarrow> lace" where
  "relayout_start s =
     s\<lparr>columns := replicate (ncols (cols (settings s))) [],
       loose := filter (\<lambda>x. x \<notin> set (find_items s)) (loose s) @ find_items s,
       cssWidth := (if centered (settings s) then Some (getContainerWidth s) else cssWidth s),
       cache := (cache s)\<lparr>itemIndex := 0, lastColAppended := None\<rparr>\<rparr>"

section \<open>Example grids\<close>


definition no_options :: options where
  "no_options = \<lparr>opt_colWidth = None, opt_colPadding = None, opt_minCols = None,
     opt_windowPadding = None, opt_selector = None, opt_bootstrapped = None,
     opt_centered = None\<rparr>"

text \<open>The options of the usage example of the source: 200 pixel columns, 10 pixels apart.\<close>

definition usual_options :: options where
  "usual_options = no_options\<lparr>opt_colWidth := Some 200, opt_colPadding := Some (Some 10),
     opt_selector := Some ''.grid-item''\<rparr>"



text \<open>
  A container of the given width whose children are the given elements, with their
  heights and no \<open>data-sort-index\<close> yet.
\<close>

definition item_page :: "rat \<Rightarrow> elem list \<Rightarrow> (elem \<Rightarrow> nat) \<Rightarrow> page" where
  "item_page w xs h = \<lparr>page_children = xs, page_sortIndex = (\<lambda>x. None), page_height = h,
     page_elWidth = w, page_refWidth = w, page_clearer = False\<rparr>"

text \<open>Heights given by a table: element \<open>x\<close> has the height at position \<open>x\<close>.\<close>

definition px :: "nat list \<Rightarrow> elem \<Rightarrow> nat" where
  "px hs x = (if x < length hs then hs ! x else 0)"

text \<open>Indices given by a table in the same way; \<open>None\<close> for no attribute.\<close>

definition ix :: "nat option list \<Rightarrow> elem \<Rightarrow> nat option" where
  "ix t x = (if x < length t then t ! x else None)"

text \<open>
  A grid under the usual options with \<open>n\<close> columns of the given contents, in a container
  that is just wide enough for them.
\<close>

definition grid ::
  "int \<Rightarrow> elem list list \<Rightarrow> (elem \<Rightarrow> nat option) \<Rightarrow> (elem \<Rightarrow> nat) \<Rightarrow> jsnum option \<Rightarrow> nat \<Rightarrow> lace" where
  "grid n cs idx h l k =
     \<lparr>settings = (jq_extend defaults usual_options)\<lparr>cols := Fin n\<rparr>,
      cache = \<lparr>cache_cols = Fin n, lastColAppended = l, itemIndex = k\<rparr>,
      columns = cs, loose = [], sortIndex = idx, height = h,
      elWidth = of_int n * 210 + 50, refWidth = of_int n * 210 + 50, cssWidth = None,
      clearer = True\<rparr>"

text \<open>Calls one after the other, as long as they return; appending elements one at a time.\<close>

definition after ::
  "lace outcome option \<Rightarrow> (lace \<Rightarrow> lace outcome option) \<Rightarrow> lace outcome option" where
  "after r f =
     (case r of None \<Rightarrow> None | Some r' \<Rightarrow> if returns r' then f (state_of r') else Some r')"


definition returned :: "lace option \<Rightarrow> lace outcome option" where
  "returned r = map_option Returns r"

definition columns_after :: "lace outcome option \<Rightarrow> elem list list option" where
  "columns_after r = map_option (\<lambda>r'. columns (state_of r')) r"

section \<open>Properties of rounding\<close>

text \<open>The exponent that \<open>ilog2\<close> finds is the right one.\<close>

lemma log2i_bounds:
  "1 \<le> n \<Longrightarrow> 0 \<le> log2i n \<and> 2 ^ nat (log2i n) \<le> n \<and> n < 2 * 2 ^ nat (log2i n)"
proof (induction n rule: log2i.induct)
  case (1 n)
  show ?case
  proof (cases "n < 2")
    case True
    with 1(2) have "n = 1" by simp
    then show ?thesis by (simp add: log2i.simps)
  next
    case False
    then have h: "1 \<le> n div 2" by simp
    note IH = 1(1) [OF False h]
    have l: "log2i n = 1 + log2i (n div 2)"
      using False by (subst log2i.simps) simp
    have "0 \<le> log2i (n div 2)" using IH by simp
    then have n: "nat (log2i n) = Suc (nat (log2i (n div 2)))"
      by (simp add: l nat_add_distrib)
    have a: "2 * (n div 2) \<le> n" "n < 2 * (n div 2) + 2" by simp_all
    have "0 \<le> log2i n" using l IH by simp
    moreover have "2 ^ nat (log2i n) \<le> n" using IH a by (simp add: n)
    moreover have "n < 2 * 2 ^ nat (log2i n)" using IH a by (simp add: n)
    ultimately show ?thesis by simp
  qed
qed

lemma ilog2_bounds:
  fixes x :: rat
  assumes "0 < x"
  shows "2 powi (ilog2 x) \<le> x" and "x < 2 powi (ilog2 x + 1)"
proof -
  have "2 powi (ilog2 x) \<le> x \<and> x < 2 powi (ilog2 x + 1)"
  proof (cases "1 \<le> x")
    case True
    define n where "n = \<lfloor>x\<rfloor>"
    define k where "k = nat (log2i n)"
    have n1: "1 \<le> n" using True by (simp add: n_def)
    have b: "0 \<le> log2i n" "2 ^ k \<le> n" "n < 2 * 2 ^ k"
      using log2i_bounds [OF n1] by (simp_all add: k_def)
    have i: "ilog2 x = int k" using True b(1) by (simp add: ilog2_def n_def k_def)
    have "(of_int (2 ^ k) :: rat) \<le> of_int n" using b(2) by (simp only: of_int_le_iff)
    moreover have "(of_int (2 ^ k) :: rat) = 2 ^ k" by simp
    moreover have "of_int n \<le> x" by (simp add: n_def)
    ultimately have lo: "2 ^ k \<le> x" by linarith
    have "n + 1 \<le> 2 * 2 ^ k" using b(3) by simp
    then have "(of_int (n + 1) :: rat) \<le> of_int (2 * 2 ^ k)" by (simp only: of_int_le_iff)
    moreover have "(of_int (2 * 2 ^ k) :: rat) = 2 * 2 ^ k" by simp
    moreover have "x < of_int (n + 1)" unfolding n_def by linarith
    ultimately have hi: "x < 2 * 2 ^ k" by linarith
    have "2 powi (int k + 1) = (2::rat) * 2 ^ k"
      by (simp add: power_int_add)
    with lo hi i show ?thesis by simp
  next
    case False
    define m where "m = \<lceil>1 / x\<rceil> - 1"
    define k where "k = nat (log2i m)"
    define p :: rat where "p = 2 ^ k"
    have p0: "0 < p" by (simp add: p_def)
    have "1 < 1 / x" using False assms by simp
    then have "1 < \<lceil>1 / x\<rceil>" by (simp add: less_ceiling_iff)
    then have m1: "1 \<le> m" by (simp add: m_def)
    have b: "0 \<le> log2i m" "2 ^ k \<le> m" "m < 2 * 2 ^ k"
      using log2i_bounds [OF m1] by (simp_all add: k_def)
    have i: "ilog2 x = - (int k + 1)" using False b(1) by (simp add: ilog2_def m_def k_def)
    have c1: "1 / x \<le> of_int m + 1" by (simp add: m_def)
    have c2: "of_int m < 1 / x"
      using ceiling_correct [of "1 / x"] by (simp add: m_def)
    have "(of_int (2 ^ k) :: rat) \<le> of_int m" using b(2) by (simp only: of_int_le_iff)
    moreover have "(of_int (2 ^ k) :: rat) = p" by (simp add: p_def)
    ultimately have pm: "p \<le> of_int m" by linarith
    have "m + 1 \<le> 2 * 2 ^ k" using b(3) by simp
    then have "(of_int (m + 1) :: rat) \<le> of_int (2 * 2 ^ k)" by (simp only: of_int_le_iff)
    moreover have "(of_int (2 * 2 ^ k) :: rat) = 2 * p" by (simp add: p_def)
    moreover have "(of_int (m + 1) :: rat) = of_int m + 1" by simp
    ultimately have mp: "of_int m + 1 \<le> 2 * p" by linarith
    have "1 / x \<le> 2 * p" using c1 mp by simp
    then have lo: "1 / (2 * p) \<le> x" using assms p0 by (simp add: field_simps)
    have "p < 1 / x" using pm c2 by simp
    then have hi: "x < 1 / p" using assms p0 by (simp add: field_simps)
    have "- (int k + 1) = - int (Suc k)" by simp
    then have "(2::rat) powi (- (int k + 1)) = 2 powi (- int (Suc k))" by (rule arg_cong)
    also have "\<dots> = 1 / 2 powi int (Suc k)" by (rule power_int_minus_divide)
    also have "\<dots> = 1 / (2 * p)" by (simp only: power_int_of_nat power_Suc p_def)
    finally have e1: "2 powi (- (int k + 1)) = 1 / (2 * p)" .
    have e2: "2 powi (- (int k + 1) + 1) = 1 / p"
      by (simp add: power_int_minus_divide p_def)
    show ?thesis using lo hi unfolding i e1 e2 by simp
  qed
  then show "2 powi (ilog2 x) \<le> x" and "x < 2 powi (ilog2 x + 1)" by simp_all
qed


lemma round_half_even_of_int [simp]: "round_half_even (of_int m) = m"
  by (simp add: round_half_even_def)


lemma ilog2_ge:
  fixes x :: rat
  assumes "0 < x" "2 powi lo \<le> x"
  shows "lo \<le> ilog2 x"
proof (rule ccontr)
  assume "\<not> lo \<le> ilog2 x"
  then have "ilog2 x + 1 \<le> lo" by simp
  then have "(2::rat) powi (ilog2 x + 1) \<le> 2 powi lo"
    by (rule power_int_increasing) simp
  with ilog2_bounds(2) [OF assms(1)] assms(2) show False by linarith
qed

lemma ilog2_less:
  fixes x :: rat
  assumes "0 \<le> x" "x < 2 powi hi" "0 \<le> hi"
  shows "ilog2 x < hi"
proof (cases "x = 0")
  case True
  have "ilog2 0 = - 1" by (simp add: ilog2_def log2i.simps)
  with True assms(3) show ?thesis by simp
next
  case False
  then have p: "0 < x" using assms(1) by simp
  show ?thesis
  proof (rule ccontr)
    assume "\<not> ilog2 x < hi"
    then have "hi \<le> ilog2 x" by simp
    then have "(2::rat) powi hi \<le> 2 powi (ilog2 x)"
      by (rule power_int_increasing) simp
    with ilog2_bounds(1) [OF p] assms(2) show False by linarith
  qed
qed

lemma pow2_split:
  assumes "e \<le> 52"
  shows "(2::rat) powi (e - 52) = 1 / 2 ^ nat (52 - e)"
    and "(2::rat) powi e * (2 * 2 ^ nat (52 - e)) = 2 ^ 53"
proof -
  define s where "s = nat (52 - e)"
  have e: "e - 52 = - int s" "e + int (Suc s) = 53" using assms by (simp_all add: s_def)
  have "(2::rat) powi (e - 52) = 1 / 2 powi int s"
    unfolding e by (rule power_int_minus_divide)
  then show "(2::rat) powi (e - 52) = 1 / 2 ^ nat (52 - e)"
    by (simp only: power_int_of_nat s_def)
  have "(2::rat) powi e * 2 powi int (Suc s) = 2 powi (e + int (Suc s))"
    by (rule power_int_add [symmetric]) simp
  also have "\<dots> = 2 ^ 53" unfolding e by simp
  finally show "(2::rat) powi e * (2 * 2 ^ nat (52 - e)) = 2 ^ 53"
    by (simp only: power_int_of_nat power_Suc s_def)
qed

text \<open>
  Rounding in the normal range below \<open>2 ^ 53\<close>, where the quantum \<open>2 ^ (e - 52)\<close> is at
  most 1.
\<close>

lemma rd_scaled:
  fixes x :: rat
  assumes x0: "x \<noteq> 0" and lo: "2 powi (- 1022) \<le> \<bar>x\<bar>" and hi: "\<bar>x\<bar> < 2 ^ 53"
  shows "rd x = (let y = of_int (round_half_even (x * 2 ^ nat (52 - ilog2 \<bar>x\<bar>)))
                         / 2 ^ nat (52 - ilog2 \<bar>x\<bar>)
                 in if 1024 \<le> ilog2 \<bar>y\<bar> then (if 0 < x then Infinity else NegInfinity)
                    else Finite y)"
    and "- 1022 \<le> ilog2 \<bar>x\<bar>" and "ilog2 \<bar>x\<bar> \<le> 52"
proof -
  have p: "0 < \<bar>x\<bar>" using x0 by simp
  have "\<bar>x\<bar> < 2 powi 53" using hi by simp
  then have "ilog2 \<bar>x\<bar> < 53" by (rule ilog2_less [rotated]) simp_all
  then show e': "ilog2 \<bar>x\<bar> \<le> 52" by simp
  show e: "- 1022 \<le> ilog2 \<bar>x\<bar>" using p lo by (rule ilog2_ge)
  have m: "max (ilog2 \<bar>x\<bar>) (- 1022) = ilog2 \<bar>x\<bar>" using e by simp
  show "rd x = (let y = of_int (round_half_even (x * 2 ^ nat (52 - ilog2 \<bar>x\<bar>)))
                         / 2 ^ nat (52 - ilog2 \<bar>x\<bar>)
                 in if 1024 \<le> ilog2 \<bar>y\<bar> then (if 0 < x then Infinity else NegInfinity)
                    else Finite y)"
    unfolding rd_def Let_def m pow2_split(1) [OF e'] using x0 by simp
qed

text \<open>An integer below \<open>2 ^ 53\<close> in magnitude is a double.\<close>

lemma rd_of_int:
  assumes "\<bar>k\<bar> < 2 ^ 53"
  shows "rd (of_int k) = Finite (of_int k)"
proof (cases "k = 0")
  case True
  then show ?thesis by (simp add: rd_def)
next
  case False
  define x :: rat where "x = of_int k"
  have x0: "x \<noteq> 0" using False by (simp add: x_def)
  have ax: "\<bar>x\<bar> = of_int \<bar>k\<bar>" by (simp add: x_def)
  have "(of_int \<bar>k\<bar> :: rat) < of_int (2 ^ 53)" using assms by (simp only: of_int_less_iff)
  then have hi: "\<bar>x\<bar> < 2 ^ 53" unfolding ax by simp
  have "1 \<le> \<bar>k\<bar>" using False by simp
  then have "(of_int 1 :: rat) \<le> of_int \<bar>k\<bar>" by (simp only: of_int_le_iff)
  then have one: "1 \<le> \<bar>x\<bar>" unfolding ax by simp
  have "(2::rat) powi (- 1022) \<le> 2 powi 0" by (rule power_int_increasing) simp_all
  then have lo: "2 powi (- 1022) \<le> \<bar>x\<bar>" using one by simp
  define s where "s = nat (52 - ilog2 \<bar>x\<bar>)"
  have "x * 2 ^ s = of_int (k * 2 ^ s)" by (simp add: x_def)
  then have r: "round_half_even (x * 2 ^ s) = k * 2 ^ s"
    by (simp only: round_half_even_of_int)
  have y: "of_int (k * 2 ^ s) / 2 ^ s = x" by (simp add: x_def)
  have "\<not> 1024 \<le> ilog2 \<bar>x\<bar>" using rd_scaled(3) [OF x0 lo hi] by simp
  then show ?thesis
    unfolding x_def [symmetric] rd_scaled(1) [OF x0 lo hi] Let_def s_def [symmetric] r y
    by simp
qed


section \<open>Properties of the column count\<close>


text \<open>With a divisor of 0 the count is the quotient's infinity, \<open>minCols\<close> or NaN.\<close>

lemma getColumnCount_zero:
  assumes w: "(if centered (settings s) then refWidth s else elWidth s)
                - windowPadding (settings s) = of_int a"
    and c: "colWidth (settings s) + num_of (colPadding (settings s)) = 0"
    and a: "\<bar>a\<bar> < 2 ^ 53"
  shows "getColumnCount s =
           (if 0 < a then PInf else if a < 0 then Fin (minCols (settings s)) else NaN)"
proof -
  have w': "refWidth s - windowPadding (settings s) = of_int a" if "centered (settings s)"
    using w that by simp
  have w'': "elWidth s - windowPadding (settings s) = of_int a" if "\<not> centered (settings s)"
    using w that by simp
  have z: "rd 0 = Finite 0" by (simp add: rd_def)
  show ?thesis
    by (cases "centered (settings s)")
       (simp_all add: getColumnCount_def Let_def d_sub_def w' w'' c rd_of_int [OF a] z
          inf_of_def)
qed



text \<open>
  The messages of the constructor in terms of the options: a missing \<open>colPadding\<close> takes
  the default 0 and is not reported; only a \<open>colPadding\<close> given as \<open>null\<close> is.
\<close>

lemma Lace_errors:
  "fst (Lace el opts) =
     (if opt_selector opts = None then [Missing_selector] else [])
     @ (if opt_colWidth opts = None \<or> opt_colWidth opts = Some 0 then [Missing_colWidth] else [])
     @ (if opt_colPadding opts = Some None then [Missing_colPadding] else [])"
  by (simp add: Lace_def Let_def fresh_def jq_extend_def defaults_def
      split: option.splits)



section \<open>Properties of the height query\<close>

text \<open>
  After a scan for the shortest column over a non-empty list, the value recorded is a
  least height and the column recorded is the first that has it.
\<close>

lemma shortest_scan_first_min:
  "heights \<noteq> [] \<Longrightarrow>
   \<exists>m k. shortest_scan heights = (Some m, Some (k + 1)) \<and> k < length heights
     \<and> heights ! k = m \<and> (\<forall>j < length heights. m \<le> heights ! j)
     \<and> (\<forall>j < k. m < heights ! j)"
proof (induction heights rule: rev_induct)
  case Nil
  then show ?case by simp
next
  case (snoc x xs)
  show ?case
  proof (cases "xs = []")
    case True
    then show ?thesis
      by (simp add: shortest_scan_def shortest_step_def)
  next
    case False
    from snoc.IH [OF False] obtain m k where
      scan: "shortest_scan xs = (Some m, Some (k + 1))" and k: "k < length xs"
      and at: "xs ! k = m" and lower: "\<forall>j < length xs. m \<le> xs ! j"
      and strict: "\<forall>j < k. m < xs ! j"
      by blast
    have step: "shortest_scan (xs @ [x]) = shortest_step (shortest_scan xs) (length xs, x)"
      by (simp add: shortest_scan_def enumerate_append_eq)
    show ?thesis
    proof (cases "x < m")
      case True
      have "shortest_scan (xs @ [x]) = (Some x, Some (length xs + 1))"
        using True by (simp add: step scan shortest_step_def)
      moreover have "\<forall>j < length (xs @ [x]). x \<le> (xs @ [x]) ! j"
        using True lower by (auto simp: nth_append less_Suc_eq)
      moreover have "\<forall>j < length xs. x < (xs @ [x]) ! j"
        using True lower by (auto simp: nth_append)
      ultimately show ?thesis
        by (intro exI [of _ x] exI [of _ "length xs"]) simp
    next
      case False
      have "shortest_scan (xs @ [x]) = (Some m, Some (k + 1))"
        using False by (simp add: step scan shortest_step_def)
      moreover have "\<forall>j < length (xs @ [x]). m \<le> (xs @ [x]) ! j"
        using False lower by (auto simp: nth_append less_Suc_eq)
      moreover have "\<forall>j < k. m < (xs @ [x]) ! j"
        using strict k by (auto simp: nth_append)
      moreover have "(xs @ [x]) ! k = m"
        using at k by (simp add: nth_append)
      ultimately show ?thesis
        using k by (intro exI [of _ m] exI [of _ k]) simp
    qed
  qed
qed

text \<open>The same for the highest column, with the comparison turned round.\<close>

lemma highest_scan_first_max:
  "heights \<noteq> [] \<Longrightarrow>
   \<exists>m k. highest_scan heights = (Some m, Some (k + 1)) \<and> k < length heights
     \<and> heights ! k = m \<and> (\<forall>j < length heights. heights ! j \<le> m)
     \<and> (\<forall>j < k. heights ! j < m)"
proof (induction heights rule: rev_induct)
  case Nil
  then show ?case by simp
next
  case (snoc x xs)
  show ?case
  proof (cases "xs = []")
    case True
    then show ?thesis
      by (simp add: highest_scan_def highest_step_def)
  next
    case False
    from snoc.IH [OF False] obtain m k where
      scan: "highest_scan xs = (Some m, Some (k + 1))" and k: "k < length xs"
      and at: "xs ! k = m" and upper: "\<forall>j < length xs. xs ! j \<le> m"
      and strict: "\<forall>j < k. xs ! j < m"
      by blast
    have step: "highest_scan (xs @ [x]) = highest_step (highest_scan xs) (length xs, x)"
      by (simp add: highest_scan_def enumerate_append_eq)
    show ?thesis
    proof (cases "m < x")
      case True
      have "highest_scan (xs @ [x]) = (Some x, Some (length xs + 1))"
        using True by (simp add: step scan highest_step_def)
      moreover have "\<forall>j < length (xs @ [x]). (xs @ [x]) ! j \<le> x"
        using True upper by (auto simp: nth_append less_Suc_eq)
      moreover have "\<forall>j < length xs. (xs @ [x]) ! j < x"
        using True upper by (auto simp: nth_append)
      ultimately show ?thesis
        by (intro exI [of _ x] exI [of _ "length xs"]) simp
    next
      case False
      have "highest_scan (xs @ [x]) = (Some m, Some (k + 1))"
        using False by (simp add: step scan highest_step_def)
      moreover have "\<forall>j < length (xs @ [x]). (xs @ [x]) ! j \<le> m"
        using False upper by (auto simp: nth_append less_Suc_eq)
      moreover have "\<forall>j < k. (xs @ [x]) ! j < m"
        using strict k by (auto simp: nth_append)
      moreover have "(xs @ [x]) ! k = m"
        using at k by (simp add: nth_append)
      ultimately show ?thesis
        using k by (intro exI [of _ m] exI [of _ k]) simp
    qed
  qed
qed

text \<open>Both scans together: what \<open>_getColumnHeights\<close> returns for given heights.\<close>

lemma heights_of_first_extrema:
  assumes "heights \<noteq> []"
  shows "\<exists>c. heights_of heights = Some c
     \<and> 1 \<le> shortest c \<and> shortest c \<le> length heights
     \<and> heights ! (shortest c - 1) = shortestValue c
     \<and> (\<forall>j < length heights. shortestValue c \<le> heights ! j)
     \<and> (\<forall>j < shortest c - 1. shortestValue c < heights ! j)
     \<and> 1 \<le> highest c \<and> highest c \<le> length heights
     \<and> heights ! (highest c - 1) = highestValue c
     \<and> (\<forall>j < length heights. heights ! j \<le> highestValue c)
     \<and> (\<forall>j < highest c - 1. heights ! j < highestValue c)"
proof -
  from shortest_scan_first_min [OF assms] obtain sv sk where
    s: "shortest_scan heights = (Some sv, Some (sk + 1))" "sk < length heights"
       "heights ! sk = sv" "\<forall>j < length heights. sv \<le> heights ! j"
       "\<forall>j < sk. sv < heights ! j"
    by blast
  from highest_scan_first_max [OF assms] obtain hv hk where
    h: "highest_scan heights = (Some hv, Some (hk + 1))" "hk < length heights"
       "heights ! hk = hv" "\<forall>j < length heights. heights ! j \<le> hv"
       "\<forall>j < hk. heights ! j < hv"
    by blast
  have "heights_of heights =
          Some \<lparr>highest = hk + 1, highestValue = hv, shortest = sk + 1, shortestValue = sv\<rparr>"
    using s(1) h(1) by (simp add: heights_of_def)
  then show ?thesis
    using s h by simp
qed

text \<open>
  C6. For every non-empty list of column heights, taken in the order of the column
  numbers, the query returns as shortest the first column of least height and as highest
  the first column of greatest height, with their heights: every column before the
  shortest is strictly higher than it, and every column before the highest is strictly
  lower.
\<close>

theorem heights_of_earliest:
  assumes "heights \<noteq> []"
  shows "\<exists>c. heights_of heights = Some c
     \<and> 1 \<le> shortest c \<and> shortest c \<le> length heights
     \<and> heights ! (shortest c - 1) = shortestValue c
     \<and> (\<forall>j < length heights. shortestValue c \<le> heights ! j)
     \<and> (\<forall>j < shortest c - 1. shortestValue c < heights ! j)
     \<and> 1 \<le> highest c \<and> highest c \<le> length heights
     \<and> heights ! (highest c - 1) = highestValue c
     \<and> (\<forall>j < length heights. heights ! j \<le> highestValue c)
     \<and> (\<forall>j < highest c - 1. heights ! j < highestValue c)"
  using assms by (rule heights_of_first_extrema)

text \<open>
  Heights 100, 900, 100, 900: the shortest column is column 1 and the highest is
  column 2, the earlier of each pair.
\<close>

theorem heights_of_earliest_witness:
  "[100, 900, 100, 900] \<noteq> ([] :: nat list)
   \<and> heights_of [100, 900, 100, 900] =
       Some \<lparr>highest = 2, highestValue = 900, shortest = 1, shortestValue = 100\<rparr>"
  using heights_of_earliest [of "[100, 900, 100, 900]"]
  by (simp add: heights_of_def shortest_scan_def highest_scan_def shortest_step_def
      highest_step_def)


section \<open>Properties of the placement of items\<close>

lemma js_mod_nonneg: "0 \<le> a \<Longrightarrow> 0 < n \<Longrightarrow> js_mod (Fin a) (Fin n) = Fin (a mod n)"
  by (cases "a = 0") simp_all

lemma nextCol_sortIndex [simp]: "nextCol (s\<lparr>sortIndex := f\<rparr>) i = nextCol s i"
  by (simp add: nextCol_def)

lemma nextCol_first:
  assumes "cols (settings s) = Fin n" and "1 \<le> n" and "\<not> truthy (lastColAppended (cache s))"
  shows "nextCol s i = Fin (int i mod n + 1)"
  using assms js_mod_nonneg [of "int i" n] by (simp add: nextCol_def del: js_mod.simps)

lemma nextCol_next:
  assumes "cols (settings s) = Fin n" and "1 \<le> n"
    and "lastColAppended (cache s) = Some (Fin l)" and "1 \<le> l"
  shows "nextCol s i = Fin (l mod n + 1)"
  using assms js_mod_nonneg [of l n] by (simp add: nextCol_def last_num_def del: js_mod.simps)

lemma nextCol_range:
  assumes "cols (settings s) = Fin n" and "1 \<le> n"
    and "lastColAppended (cache s) = None
         \<or> (\<exists>l. lastColAppended (cache s) = Some (Fin l) \<and> 0 \<le> l)"
  shows "\<exists>k. nextCol s i = Fin k \<and> 1 \<le> k \<and> k \<le> n"
proof (cases "truthy (lastColAppended (cache s))")
  case False
  have "0 \<le> int i mod n" and "int i mod n < n" using assms(2) by simp_all
  then have "1 \<le> int i mod n + 1" and "int i mod n + 1 \<le> n" by linarith+
  moreover have "nextCol s i = Fin (int i mod n + 1)"
    using assms(1,2) False by (rule nextCol_first)
  ultimately show ?thesis by blast
next
  case True
  with assms(3) obtain l where l: "lastColAppended (cache s) = Some (Fin l)" "1 \<le> l"
    by (cases "lastColAppended (cache s)") auto
  have "0 \<le> l mod n" and "l mod n < n" using assms(2) by simp_all
  then have "1 \<le> l mod n + 1" and "l mod n + 1 \<le> n" by linarith+
  moreover have "nextCol s i = Fin (l mod n + 1)"
    using assms(1,2) l by (rule nextCol_next)
  ultimately show ?thesis by blast
qed

lemma appendTo_frame [simp]:
  "settings (appendTo x k s) = settings s"
  "cache (appendTo x k s) = cache s"
  "length (columns (appendTo x k s)) = length (columns s)"
  "sortIndex (appendTo x k s) = sortIndex s"
  "height (appendTo x k s) = height s"
  "loose (appendTo x k s) = removeAll x (loose s)"
  by (simp_all add: appendTo_def detach_def Let_def)

lemma appendTo_column:
  "k < length (columns s) \<Longrightarrow>
   columns (appendTo x k s) =
     (map (removeAll x) (columns s))[k := removeAll x (columns s ! k) @ [x]]"
  by (simp add: appendTo_def detach_def Let_def)

text \<open>A round of the loop whose number \<open>num\<close> is that of a column.\<close>

lemma moveItem_placed:
  assumes "nextCol s i = Fin k" and "1 \<le> k" and "k \<le> int (length (columns s))"
  shows "moveItem s (i, x) =
     (appendTo x (nat (k - 1))
        (s\<lparr>sortIndex := (sortIndex s)(x := Some (itemIndex (cache s))),
           cache := (cache s)\<lparr>lastColAppended := Some (Fin k)\<rparr>\<rparr>))
     \<lparr>cache := (cache s)\<lparr>lastColAppended := Some (Fin k),
                         itemIndex := itemIndex (cache s) + 1\<rparr>\<rparr>"
  using assms by (simp add: moveItem_def Let_def find_col_def)

lemma moveItem_placed_props:
  assumes "nextCol s i = Fin k" and "1 \<le> k" and "k \<le> int (length (columns s))"
  shows "lastColAppended (cache (moveItem s (i, x))) = Some (Fin k)"
    and "itemIndex (cache (moveItem s (i, x))) = itemIndex (cache s) + 1"
    and "cache_cols (cache (moveItem s (i, x))) = cache_cols (cache s)"
    and "settings (moveItem s (i, x)) = settings s"
    and "columns (moveItem s (i, x)) =
           (map (removeAll x) (columns s))
             [nat (k - 1) := removeAll x (columns s ! nat (k - 1)) @ [x]]"
    and "loose (moveItem s (i, x)) = removeAll x (loose s)"
    and "sortIndex (moveItem s (i, x)) = (sortIndex s)(x := Some (itemIndex (cache s)))"
    and "height (moveItem s (i, x)) = height s"
  using assms by (simp_all add: moveItem_placed appendTo_column)


text \<open>
  C10. In a grid of \<open>n \<ge> 1\<close> columns whose \<open>lastColAppended\<close> is \<open>null\<close> or a
  non-negative number, the number that a round of the assignment loop computes lies in
  \<open>1..n\<close> and is the number of a column; the element is put into that column, and the
  number is the next \<open>lastColAppended\<close>, so the same holds for the round after it.
\<close>

theorem moveItem_target_in_range:
  assumes "cols (settings s) = Fin n" and "1 \<le> n" and "length (columns s) = nat n"
    and "lastColAppended (cache s) = None
         \<or> (\<exists>l. lastColAppended (cache s) = Some (Fin l) \<and> 0 \<le> l)"
  shows "\<exists>k. nextCol s i = Fin k \<and> 1 \<le> k \<and> k \<le> n
           \<and> find_col (columns s) (Fin k) = Some (nat (k - 1))
           \<and> lastColAppended (cache (moveItem s (i, x))) = Some (Fin k)
           \<and> x \<in> set (columns (moveItem s (i, x)) ! nat (k - 1))
           \<and> cols (settings (moveItem s (i, x))) = Fin n
           \<and> length (columns (moveItem s (i, x))) = nat n"
proof -
  from nextCol_range [OF assms(1,2,4)] obtain k where
    k: "nextCol s i = Fin k" "1 \<le> k" "k \<le> n" by blast
  then have len: "k \<le> int (length (columns s))" using assms(3) by simp
  have "nat (k - 1) < length (columns s)" using k assms(3) by linarith
  then show ?thesis
    using k assms(1,3) moveItem_placed_props [OF k(1,2) len, of x]
    by (simp add: find_col_def)
qed

text \<open>
  Three columns holding the elements 1 to 5, the last of them put into column 2: element
  6 at position 0 of its batch goes to column 3.
\<close>

theorem moveItem_target_in_range_witness:
  "cols (settings (grid 3 [[1, 4], [2, 5], [3]] (\<lambda>x. None) (\<lambda>x. 100) (Some (Fin 2)) 5)) = Fin 3
   \<and> nextCol (grid 3 [[1, 4], [2, 5], [3]] (\<lambda>x. None) (\<lambda>x. 100) (Some (Fin 2)) 5) 0 = Fin 3
   \<and> columns (moveItem (grid 3 [[1, 4], [2, 5], [3]] (\<lambda>x. None) (\<lambda>x. 100) (Some (Fin 2)) 5) (0, 6))
       = [[1, 4], [2, 5], [3, 6]]"
proof -
  let ?g = "grid 3 [[1, 4], [2, 5], [3]] (\<lambda>x. None) (\<lambda>x. 100) (Some (Fin 2)) 5"
  have "cols (settings ?g) = Fin 3" and "length (columns ?g) = nat 3"
    and "lastColAppended (cache ?g) = None
         \<or> (\<exists>l. lastColAppended (cache ?g) = Some (Fin l) \<and> 0 \<le> l)"
    by (simp_all add: grid_def)
  from moveItem_target_in_range [OF this(1) _ this(2,3), of 0 6]
  obtain k where "nextCol ?g 0 = Fin k" and "1 \<le> k" and "k \<le> 3" by auto
  moreover have "nextCol ?g 0 = Fin 3" by code_simp
  moreover have "columns (moveItem ?g (0, 6)) = [[1, 4], [2, 5], [3, 6]]" by code_simp
  moreover have "cols (settings ?g) = Fin 3" by (simp add: grid_def)
  ultimately show ?thesis by simp
qed


section \<open>The balancer returns\<close>

lemma getColumnHeights_None: "getColumnHeights s = None \<longleftrightarrow> columns s = []"
  using heights_of_first_extrema [of "map (colHeight s) (columns s)"]
  by (auto simp: getColumnHeights_def)

lemma evenBottom_body_frame:
  "settings (state_of (evenBottom_body s)) = settings s"
  "cache (state_of (evenBottom_body s)) = cache s"
  "length (columns (state_of (evenBottom_body s))) = length (columns s)"
  "sortIndex (state_of (evenBottom_body s)) = sortIndex s"
  "height (state_of (evenBottom_body s)) = height s"
  by (simp_all add: evenBottom_body_def Let_def split: option.splits)

lemma evenBottom_body_returns: "returns (evenBottom_body s) \<longleftrightarrow> columns s \<noteq> []"
proof (cases "columns s = []")
  case True
  then have "getColumnHeights s = None" by (simp add: getColumnHeights_None)
  then show ?thesis using True by (simp add: evenBottom_body_def)
next
  case False
  then obtain c where "getColumnHeights s = Some c"
    by (cases "getColumnHeights s") (auto simp: getColumnHeights_None)
  then show ?thesis using False by (simp add: evenBottom_body_def Let_def)
qed

text \<open>
  The loop of \<open>evenBottom\<close> with a finite \<open>cache.cols = m\<close> ends after
  \<open>ceil (m / 2)\<close> rounds, and what every round keeps holds at the end.
\<close>

lemma evenBottom_loop_invariant:
  assumes step: "\<And>i s. P i s \<Longrightarrow> int i < - ((- m) div 2) \<Longrightarrow>
                   columns s \<noteq> [] \<and> P (Suc i) (state_of (evenBottom_body s))"
    and cc: "\<And>i s. P i s \<Longrightarrow> cache_cols (cache s) = Fin m"
    and init: "P i s"
  shows "\<exists>s' j. evenBottom_loop i s = Some (Returns s') \<and> P j s' \<and> i \<le> j
           \<and> \<not> int j < - ((- m) div 2)"
  using init
proof (induction "nat (- ((- m) div 2)) - i" arbitrary: i s)
  case 0
  then have "\<not> int i < - ((- m) div 2)" by linarith
  then show ?case
    using 0 cc [of i s] by (subst evenBottom_loop.simps) auto
next
  case (Suc d)
  then have lt: "int i < - ((- m) div 2)" by linarith
  from step [OF Suc.prems lt] have ne: "columns s \<noteq> []"
    and P': "P (Suc i) (state_of (evenBottom_body s))" by simp_all
  have "d = nat (- ((- m) div 2)) - Suc i" using Suc.hyps(2) by linarith
  from Suc.hyps(1) [OF this P'] obtain s' j where
    r: "evenBottom_loop (Suc i) (state_of (evenBottom_body s)) = Some (Returns s')"
    and "P j s'" "Suc i \<le> j" "\<not> int j < - ((- m) div 2)" by blast
  moreover have "evenBottom_loop i s = evenBottom_loop (Suc i) (state_of (evenBottom_body s))"
    using lt ne cc [OF Suc.prems]
    by (subst evenBottom_loop.simps) (simp add: evenBottom_body_returns Let_def)
  ultimately show ?case by (metis Suc_leD)
qed


section \<open>Round robin\<close>




section \<open>Creating the columns\<close>

text \<open>With \<open>cols = Infinity\<close> the loop of \<open>_createColumns\<close> does not end.\<close>

lemma createColumns_loop_PInf: "createColumns_loop PInf cs = None"
proof -
  have "i \<noteq> PInf" if "createColumns_loop i cs = Some r" for i cs r
  proof (rule createColumns_loop.raw_induct [where P = "\<lambda>i cs y. i \<noteq> PInf", OF _ that])
    fix f :: "jsnum \<Rightarrow> elem list list \<Rightarrow> elem list list option" and i cs r
    assume IH: "\<And>i cs r. f i cs = Some r \<Longrightarrow> i \<noteq> PInf"
      and eq: "(if js_gt i (Fin 0) then f (js_sub i 1) ([] # cs) else Some cs) = Some r"
    show "i \<noteq> PInf"
    proof
      assume "i = PInf"
      with eq have "f PInf ([] # cs) = Some r" by (simp add: js_gt_def js_sub_def)
      from IH [OF this] show False by simp
    qed
  qed
  then show ?thesis by (cases "createColumns_loop PInf cs") auto
qed

text \<open>A count \<open>n\<close> gives \<open>n\<close> empty columns in front of those that are there.\<close>

lemma createColumns_loop_Fin:
  "createColumns_loop (Fin (int n)) cs = Some (replicate n [] @ cs)"
proof (induction n arbitrary: cs)
  case 0
  show ?case by (subst createColumns_loop.simps) (simp add: js_gt_def)
next
  case (Suc n)
  have "createColumns_loop (Fin (int (Suc n))) cs = createColumns_loop (Fin (int n)) ([] # cs)"
    by (subst createColumns_loop.simps) (simp add: js_gt_def js_sub_def)
  then show ?case
    by (simp add: Suc.IH replicate_app_Cons_same)
qed

text \<open>A count that is not positive, or NaN, gives no column.\<close>

lemma createColumns_loop_none:
  "\<not> js_gt i (Fin 0) \<Longrightarrow> createColumns_loop i cs = Some cs"
  by (subst createColumns_loop.simps) simp

section \<open>Removing all elements\<close>

text \<open>
  After \<open>removeAll\<close> on a grid of \<open>n\<close> columns no element is left and there are \<open>n\<close>
  empty columns; the cache, and with it \<open>lastColAppended\<close>, is what it was.
\<close>

lemma removeAll_items_empty:
  assumes "cols (settings s) = Fin (int n)"
  shows "\<exists>s'. removeAll_items s = Some s' \<and> columns s' = replicate n [] \<and> loose s' = []
           \<and> find_items s' = [] \<and> cache s' = cache s \<and> settings s' = settings s"
  using assms
  by (simp add: removeAll_items_def createColumns_def createColumns_loop_Fin find_items_def
      split: option.splits)

text \<open>
  C4, at a grid of three columns made from ten elements: \<open>removeAll\<close> leaves three empty
  columns, and the element appended next is put into column 2, since the tenth element
  was put into column 1 and \<open>removeAll\<close> keeps \<open>lastColAppended\<close>.
\<close>

theorem removeAll_then_append:
  "columns_after (after (snd (Lace (item_page 700 [1, 2, 3, 4, 5, 6, 7, 8, 9, 10] (\<lambda>x. 100))
                                 usual_options))
                   (\<lambda>s. returned (removeAll_items s)))
     = Some [[], [], []]
   \<and> columns_after (after (after (snd (Lace (item_page 700 [1, 2, 3, 4, 5, 6, 7, 8, 9, 10]
                                                 (\<lambda>x. 100)) usual_options))
                             (\<lambda>s. returned (removeAll_items s)))
                      (append_items [11]))
       = Some [[], [11], []]"
  by code_simp

section \<open>Properties of construction\<close>

lemma init_diverges: "cols (settings s) = PInf \<Longrightarrow> init s = None"
  by (simp add: init_def createColumns_def createColumns_loop_PInf)

lemma getColumnCount_cols [simp]:
  "getColumnCount (s\<lparr>settings := (settings s)\<lparr>cols := c\<rparr>\<rparr>) = getColumnCount s"
  by (simp add: getColumnCount_def Let_def)

lemma Lace_diverges:
  "getColumnCount (fresh el opts) = PInf \<Longrightarrow> snd (Lace el opts) = None"
  by (simp add: Lace_def Let_def init_diverges)

lemma fresh_no_options_cols:
  "getColumnCount (fresh (item_page 700 [] (\<lambda>x. 100)) no_options) = PInf"
  using getColumnCount_zero [of "fresh (item_page 700 [] (\<lambda>x. 100)) no_options" 650]
  by (simp add: fresh_def item_page_def no_options_def jq_extend_def defaults_def num_of_def)

text \<open>
  C9, at two option objects for a container 700 pixels wide. With \<open>selector\<close> and
  \<open>colWidth\<close> given and \<open>colPadding\<close> left out, the constructor reports nothing. With
  no option given it reports the missing \<open>selector\<close> and \<open>colWidth\<close> only, and then does
  not return: the column count is \<open>650 / 0 = Infinity\<close>.
\<close>

theorem Lace_missing_colPadding:
  "fst (Lace (item_page 700 [] (\<lambda>x. 100))
          (no_options\<lparr>opt_colWidth := Some 200, opt_selector := Some ''.grid-item''\<rparr>)) = []
   \<and> Lace (item_page 700 [] (\<lambda>x. 100)) no_options
       = ([Missing_selector, Missing_colWidth], None)"
proof -
  have "snd (Lace (item_page 700 [] (\<lambda>x. 100)) no_options) = None"
    by (rule Lace_diverges) (rule fresh_no_options_cols)
  moreover have "fst (Lace (item_page 700 [] (\<lambda>x. 100)) no_options)
                   = [Missing_selector, Missing_colWidth]"
    by (simp add: Lace_errors no_options_def)
  ultimately have "Lace (item_page 700 [] (\<lambda>x. 100)) no_options
                     = ([Missing_selector, Missing_colWidth], None)"
    by (simp add: prod_eq_iff)
  moreover have "fst (Lace (item_page 700 [] (\<lambda>x. 100))
             (no_options\<lparr>opt_colWidth := Some 200, opt_selector := Some ''.grid-item''\<rparr>)) = []"
    by (simp add: Lace_errors no_options_def)
  ultimately show ?thesis by simp
qed


section \<open>When the balancer does nothing\<close>

text \<open>
  C8. When the grid holds fewer than 2 elements, or the heights of the highest and the
  shortest column differ by at most 500, \<open>evenBottom\<close> ends and leaves the whole state
  as it is. It returns, except that with one element and no column it throws.
\<close>

theorem evenBottom_noop:
  assumes "length (find_items s) < 2
           \<or> (\<exists>c. getColumnHeights s = Some c
                  \<and> \<bar>int (highestValue c) - int (shortestValue c)\<bar> \<le> 500)"
  shows "\<exists>r. evenBottom s = Some r \<and> state_of r = s
           \<and> (returns r \<longleftrightarrow> find_items s = [] \<or> columns s \<noteq> [])"
proof (cases "find_items s = []")
  case True
  then show ?thesis by (simp add: evenBottom_def)
next
  case items: False
  show ?thesis
  proof (cases "getColumnHeights s")
    case None
    then have "columns s = []" by (simp add: getColumnHeights_None)
    then show ?thesis using items None by (simp add: evenBottom_def)
  next
    case (Some c)
    then have ne: "columns s \<noteq> []" using getColumnHeights_None [of s] by simp
    show ?thesis
    proof (cases "\<bar>int (highestValue c) - int (shortestValue c)\<bar> \<le> 500")
      case True
      then show ?thesis using items Some ne by (simp add: evenBottom_def)
    next
      case False
      with assms Some have "length (find_items s) < 2" by auto
      with items have "length (find_items s) = 1"
        by (cases "find_items s") auto
      then show ?thesis using items Some ne False by (simp add: evenBottom_def)
    qed
  qed
qed

text \<open>
  Three columns with one element of height 1000 in the first: the imbalance is 1000,
  there is one element, and \<open>evenBottom\<close> returns the grid as it is. Three columns of
  heights 600, 300 and 100: the imbalance is 500, and nothing is moved either.
\<close>

theorem evenBottom_noop_witness:
  "length (find_items (grid 3 [[1], [], []] (\<lambda>x. None) (px [0, 1000]) (Some (Fin 1)) 1)) < 2
   \<and> imbalance (grid 3 [[1], [], []] (\<lambda>x. None) (px [0, 1000]) (Some (Fin 1)) 1) = 1000
   \<and> evenBottom (grid 3 [[1], [], []] (\<lambda>x. None) (px [0, 1000]) (Some (Fin 1)) 1)
       = Some (Returns (grid 3 [[1], [], []] (\<lambda>x. None) (px [0, 1000]) (Some (Fin 1)) 1))
   \<and> imbalance (grid 3 [[1], [2], [3]] (\<lambda>x. None) (px [0, 600, 300, 100]) (Some (Fin 3)) 3) = 500
   \<and> evenBottom (grid 3 [[1], [2], [3]] (\<lambda>x. None) (px [0, 600, 300, 100]) (Some (Fin 3)) 3)
       = Some (Returns (grid 3 [[1], [2], [3]] (\<lambda>x. None) (px [0, 600, 300, 100]) (Some (Fin 3)) 3))"
proof -
  let ?g = "grid 3 [[1], [], []] (\<lambda>x. None) (px [0, 1000]) (Some (Fin 1)) 1"
  let ?g' = "grid 3 [[1], [2], [3]] (\<lambda>x. None) (px [0, 600, 300, 100]) (Some (Fin 3)) 3"
  have items: "find_items ?g = [1]" by code_simp
  have cs: "columns ?g \<noteq> []" by (simp add: grid_def)
  from evenBottom_noop [of ?g] items obtain r where
    r: "evenBottom ?g = Some r" "state_of r = ?g" "returns r \<longleftrightarrow> find_items ?g = [] \<or> columns ?g \<noteq> []"
    by auto
  then have "evenBottom ?g = Some (Returns ?g)" using cs by (cases r) simp_all
  moreover have "imbalance ?g = 1000" by code_simp
  moreover have "imbalance ?g' = 500" by code_simp
  moreover have "evenBottom ?g' = Some (Returns ?g')"
  proof -
    have "\<exists>c. getColumnHeights ?g' = Some c
               \<and> \<bar>int (highestValue c) - int (shortestValue c)\<bar> \<le> 500"
      using \<open>imbalance ?g' = 500\<close> by (cases "getColumnHeights ?g'") (simp_all add: imbalance_def)
    with evenBottom_noop [of ?g'] obtain r' where
      r': "evenBottom ?g' = Some r'" "state_of r' = ?g'"
        "returns r' \<longleftrightarrow> find_items ?g' = [] \<or> columns ?g' \<noteq> []"
      by auto
    moreover have "columns ?g' \<noteq> []" by (simp add: grid_def)
    ultimately show ?thesis by (cases r') simp_all
  qed
  ultimately show ?thesis using items by simp
qed


section \<open>The balancer and the imbalance\<close>

text \<open>Elements in columns: each element stands in one place.\<close>

lemma mset_concat_snoc_update:
  "b < length cs \<Longrightarrow> mset (concat (cs[b := cs ! b @ [x]])) = add_mset x (mset (concat cs))"
proof (induction cs arbitrary: b)
  case Nil
  then show ?case by simp
next
  case (Cons c cs)
  then show ?case by (cases b) simp_all
qed

lemma distinct_concat_nth:
  "distinct (concat cs) \<Longrightarrow> i < length cs \<Longrightarrow> distinct (cs ! i)"
  by (induction cs arbitrary: i) (auto simp: nth_Cons split: nat.splits)

lemma set_nth_concat:
  assumes "j < length cs"
  shows "set (cs ! j) \<subseteq> set (concat cs)"
proof
  fix x assume "x \<in> set (cs ! j)"
  moreover have "cs ! j \<in> set cs" using assms by simp
  ultimately show "x \<in> set (concat cs)" by auto
qed

lemma distinct_concat_disjoint:
  "distinct (concat cs) \<Longrightarrow> i < length cs \<Longrightarrow> j < length cs \<Longrightarrow> i \<noteq> j \<Longrightarrow>
   set (cs ! i) \<inter> set (cs ! j) = {}"
proof (induction cs arbitrary: i j)
  case Nil
  then show ?case by simp
next
  case (Cons c cs)
  show ?case
  proof (cases i)
    case 0
    then obtain j' where j: "j = Suc j'" using Cons.prems(4) by (cases j) auto
    then have "set (cs ! j') \<subseteq> set (concat cs)"
      using Cons.prems(3) set_nth_concat [of j' cs] by simp
    then show ?thesis using 0 j Cons.prems(1) by auto
  next
    case (Suc i')
    show ?thesis
    proof (cases j)
      case 0
      have "set (cs ! i') \<subseteq> set (concat cs)"
        using Cons.prems(2) Suc set_nth_concat [of i' cs] by simp
      then show ?thesis using 0 Suc Cons.prems(1) by auto
    next
      case (Suc j')
      then show ?thesis using \<open>i = Suc i'\<close> Cons.prems Cons.IH [of i' j'] by simp
    qed
  qed
qed

lemma distinct_appendTo_columns:
  assumes "distinct (concat cs)" and "b < length cs"
  shows "distinct (concat ((map (removeAll x) cs)[b := removeAll x (cs ! b) @ [x]]))"
proof -
  let ?cs = "map (removeAll x) cs"
  have c: "concat ?cs = removeAll x (concat cs)"
    by (simp add: removeAll_filter_not_eq filter_concat comp_def)
  have "mset (concat (?cs[b := ?cs ! b @ [x]])) = add_mset x (mset (concat ?cs))"
    using assms(2) mset_concat_snoc_update [of b ?cs x] by simp
  then have "mset (concat (?cs[b := ?cs ! b @ [x]])) = mset (x # removeAll x (concat cs))"
    using c by simp
  then have "distinct (concat (?cs[b := ?cs ! b @ [x]])) \<longleftrightarrow> distinct (x # removeAll x (concat cs))"
    by (rule mset_eq_imp_distinct_iff)
  moreover have "distinct (x # removeAll x (concat cs))"
    using assms(1) by (simp add: distinct_removeAll)
  ultimately show ?thesis using assms(2) by simp
qed

lemma colHeight_removeAll_le: "colHeight s (removeAll x c) \<le> colHeight s c"
proof (induction c)
  case Nil
  show ?case by simp
next
  case (Cons a c)
  then show ?case by (cases "x = a") (simp_all add: colHeight_def)
qed

lemma colHeight_removeAll_mem:
  "distinct c \<Longrightarrow> x \<in> set c \<Longrightarrow> colHeight s (removeAll x c) + height s x = colHeight s c"
  by (induction c) (auto simp: colHeight_def)

lemma colHeight_appendTo [simp]: "colHeight (appendTo x k s) c = colHeight s c"
  by (simp add: colHeight_def)


lemma getColumnHeights_extrema:
  assumes "columns s \<noteq> []"
  shows "\<exists>c. getColumnHeights s = Some c
     \<and> 1 \<le> shortest c \<and> shortest c \<le> length (columns s)
     \<and> colHeight s (columns s ! (shortest c - 1)) = shortestValue c
     \<and> (\<forall>j < length (columns s). shortestValue c \<le> colHeight s (columns s ! j))
     \<and> 1 \<le> highest c \<and> highest c \<le> length (columns s)
     \<and> colHeight s (columns s ! (highest c - 1)) = highestValue c
     \<and> (\<forall>j < length (columns s). colHeight s (columns s ! j) \<le> highestValue c)"
proof -
  let ?hs = "map (colHeight s) (columns s)"
  have "?hs \<noteq> []" using assms by simp
  from heights_of_first_extrema [OF this] obtain c where
    c: "heights_of ?hs = Some c" "1 \<le> shortest c" "shortest c \<le> length ?hs"
       "?hs ! (shortest c - 1) = shortestValue c"
       "\<forall>j < length ?hs. shortestValue c \<le> ?hs ! j"
       "1 \<le> highest c" "highest c \<le> length ?hs"
       "?hs ! (highest c - 1) = highestValue c"
       "\<forall>j < length ?hs. ?hs ! j \<le> highestValue c"
    by blast
  have "getColumnHeights s = Some c" using assms c(1) by (simp add: getColumnHeights_def)
  moreover have "shortest c - 1 < length (columns s)" "highest c - 1 < length (columns s)"
    using c(2,3,6,7) by simp_all
  ultimately show ?thesis using c by (intro exI [of _ c]) simp
qed

lemma imbalance_bounded:
  assumes "columns s \<noteq> []"
    and "\<forall>j < length (columns s). lo \<le> colHeight s (columns s ! j)
                                   \<and> colHeight s (columns s ! j) \<le> hi"
  shows "imbalance s \<le> int hi - int lo"
proof -
  from getColumnHeights_extrema [OF assms(1)] obtain c where
    c: "getColumnHeights s = Some c" "1 \<le> shortest c" "shortest c \<le> length (columns s)"
       "colHeight s (columns s ! (shortest c - 1)) = shortestValue c"
       "1 \<le> highest c" "highest c \<le> length (columns s)"
       "colHeight s (columns s ! (highest c - 1)) = highestValue c"
    by blast
  have "shortest c - 1 < length (columns s)" "highest c - 1 < length (columns s)"
    using c by simp_all
  with assms(2) c(4,7) have "lo \<le> shortestValue c" "shortestValue c \<le> hi"
    "lo \<le> highestValue c" "highestValue c \<le> hi"
    by metis+
  then show ?thesis using c(1) by (simp add: imbalance_def)
qed

lemma evenBottom_body_step:
  assumes d: "distinct (concat (columns s))" and f: "fits s"
  shows "imbalance (state_of (evenBottom_body s)) \<le> imbalance s
         \<and> distinct (concat (columns (state_of (evenBottom_body s))))"
proof (cases "columns s = []")
  case True
  then have "getColumnHeights s = None" by (simp add: getColumnHeights_None)
  then show ?thesis using d by (simp add: evenBottom_body_def)
next
  case ne: False
  let ?cs = "columns s"
  from getColumnHeights_extrema [OF ne] obtain c where
    c: "getColumnHeights s = Some c" "1 \<le> shortest c" "shortest c \<le> length ?cs"
       "colHeight s (?cs ! (shortest c - 1)) = shortestValue c"
       "\<forall>j < length ?cs. shortestValue c \<le> colHeight s (?cs ! j)"
       "1 \<le> highest c" "highest c \<le> length ?cs"
       "colHeight s (?cs ! (highest c - 1)) = highestValue c"
       "\<forall>j < length ?cs. colHeight s (?cs ! j) \<le> highestValue c"
    by blast
  define a where "a = highest c - 1"
  define b where "b = shortest c - 1"
  define hv where "hv = highestValue c"
  define sv where "sv = shortestValue c"
  have a: "a < length ?cs" and b: "b < length ?cs" using c(2,3,6,7) by (simp_all add: a_def b_def)
  have ha: "colHeight s (?cs ! a) = hv" and hb: "colHeight s (?cs ! b) = sv"
    using c(4,8) by (simp_all add: a_def b_def hv_def sv_def)
  have range: "\<forall>j < length ?cs. sv \<le> colHeight s (?cs ! j) \<and> colHeight s (?cs ! j) \<le> hv"
    using c(5,9) by (simp add: hv_def sv_def)
  have svhv: "sv \<le> hv" using range a ha by metis
  have imb: "imbalance s = int hv - int sv"
    using c(1) svhv by (simp add: imbalance_def hv_def sv_def)
  define items where "items = (case selector (settings s) of None \<Rightarrow> []
                                | Some sel \<Rightarrow> ?cs ! (highest c - 1))"
  show ?thesis
  proof (cases "items = []")
    case True
    then show ?thesis using d c(1) by (simp add: evenBottom_body_def items_def)
  next
    case False
    then have items: "items = ?cs ! a"
      by (cases "selector (settings s)") (simp_all add: items_def a_def)
    define x where "x = last items"
    define h where "h = height s x"
    have xa: "x \<in> set (?cs ! a)" using False items by (simp add: x_def)
    have "int h \<le> imbalance s"
      using f c(1) False by (simp add: fits_def items_def h_def x_def Let_def)
    then have h: "h \<le> hv - sv" using imb by simp
    have body: "state_of (evenBottom_body s) = appendTo x b s"
      using c(1) False by (simp add: evenBottom_body_def items_def x_def b_def Let_def)
    let ?s' = "appendTo x b s"
    have cols': "columns ?s' = (map (removeAll x) ?cs)[b := removeAll x (?cs ! b) @ [x]]"
      using b by (rule appendTo_column)
    have da: "distinct (?cs ! a)" using d a by (rule distinct_concat_nth)
    have rem_a: "colHeight s (removeAll x (?cs ! a)) + h = hv"
      using colHeight_removeAll_mem [OF da xa, of s] ha by (simp add: h_def)
    have other: "removeAll x (?cs ! j) = ?cs ! j" if "j < length ?cs" "j \<noteq> a" for j
    proof -
      have "set (?cs ! a) \<inter> set (?cs ! j) = {}"
        using distinct_concat_disjoint [OF d a that(1)] that(2) by auto
      with xa have "x \<notin> set (?cs ! j)" by auto
      then show ?thesis by simp
    qed
    have bound: "sv \<le> colHeight ?s' (columns ?s' ! j) \<and> colHeight ?s' (columns ?s' ! j) \<le> hv"
      if j: "j < length ?cs" for j
    proof (cases "j = b")
      case True
      have eq: "colHeight ?s' (columns ?s' ! j) = colHeight s (removeAll x (?cs ! b)) + h"
        using True b by (simp add: cols' colHeight_def h_def)
      show ?thesis
      proof (cases "b = a")
        case True
        then show ?thesis using eq rem_a svhv by simp
      next
        case False
        then have "removeAll x (?cs ! b) = ?cs ! b" using other [OF b] by simp
        then show ?thesis using eq hb h svhv by simp
      qed
    next
      case False
      then have eq: "colHeight ?s' (columns ?s' ! j) = colHeight s (removeAll x (?cs ! j))"
        using j by (simp add: cols')
      show ?thesis
      proof (cases "j = a")
        case True
        then show ?thesis using eq rem_a h svhv by simp
      next
        case False
        then show ?thesis using eq other [OF j] range j by simp
      qed
    qed
    have "columns ?s' \<noteq> []" using ne by (metis appendTo_frame(3) length_0_conv)
    moreover have "\<forall>j < length (columns ?s'). sv \<le> colHeight ?s' (columns ?s' ! j)
                     \<and> colHeight ?s' (columns ?s' ! j) \<le> hv"
      using bound by simp
    ultimately have "imbalance ?s' \<le> int hv - int sv" by (rule imbalance_bounded)
    moreover have "distinct (concat (columns ?s'))"
      unfolding cols' using d b by (rule distinct_appendTo_columns)
    ultimately show ?thesis using body imb by simp
  qed
qed


text \<open>
  C7, as amended. In a grid with a finite \<open>cache.cols = m\<close> where each element stands
  in one place, \<open>evenBottom\<close> ends, and the imbalance after it is at most the imbalance
  before it, provided that in each of its \<open>ceil (m / 2)\<close> rounds the element to be moved
  is no higher than the imbalance at that moment.
\<close>

theorem evenBottom_never_worse:
  assumes "cache_cols (cache s) = Fin m" and "distinct (concat (columns s))"
    and "fits_rounds (nat (- ((- m) div 2))) s"
  shows "\<exists>r. evenBottom s = Some r \<and> imbalance (state_of r) \<le> imbalance s"
proof (cases "evenBottom s = evenBottom_loop 0 s")
  case False
  then have "evenBottom s = Some (Returns s) \<or> evenBottom s = Some (Throws s)"
    by (auto simp: evenBottom_def Let_def split: option.splits if_splits)
  then show ?thesis by auto
next
  case True
  show ?thesis
  proof (cases "columns s = []")
    case True
    then have "getColumnHeights s = None" by (simp add: getColumnHeights_None)
    then have "evenBottom s = Some (Returns s) \<or> evenBottom s = Some (Throws s)"
      by (auto simp: evenBottom_def Let_def)
    then show ?thesis by auto
  next
    case ne: False
    define N where "N = nat (- ((- m) div 2))"
    define P where "P = (\<lambda>(i::nat) (s'::lace). cache s' = cache s
        \<and> length (columns s') = length (columns s) \<and> distinct (concat (columns s'))
        \<and> imbalance s' \<le> imbalance s \<and> fits_rounds (N - i) s')"
    have "\<exists>s' j. evenBottom_loop 0 s = Some (Returns s') \<and> P j s' \<and> 0 \<le> j
            \<and> \<not> int j < - ((- m) div 2)"
    proof (rule evenBottom_loop_invariant [where P = P])
      show "P 0 s" using assms(2,3) by (simp add: P_def N_def)
    next
      fix i s' assume "P i s'"
      then show "cache_cols (cache s') = Fin m" using assms(1) by (simp add: P_def)
    next
      fix i s' assume p: "P i s'" and lt: "int i < - ((- m) div 2)"
      then have "N - i = Suc (N - Suc i)" by (simp add: N_def)
      with p have f: "fits s'" "fits_rounds (N - Suc i) (state_of (evenBottom_body s'))"
        by (simp_all add: P_def)
      from p have d: "distinct (concat (columns s'))" by (simp add: P_def)
      from evenBottom_body_step [OF d f(1)]
      have "imbalance (state_of (evenBottom_body s')) \<le> imbalance s'"
        and "distinct (concat (columns (state_of (evenBottom_body s'))))"
        by simp_all
      moreover have "columns s' \<noteq> []" using p ne by (auto simp: P_def)
      ultimately show "columns s' \<noteq> [] \<and> P (Suc i) (state_of (evenBottom_body s'))"
        using p f(2) by (simp add: P_def evenBottom_body_frame)
    qed
    then show ?thesis using True by (auto simp: P_def)
  qed
qed

text \<open>
  Two columns of heights 1000 and 100, the first holding the elements 1, 2, 3 of heights
  600, 300, 100: the one round moves element 3, and the imbalance goes from 900 to 700.
\<close>

theorem evenBottom_never_worse_witness:
  "fits_rounds 1 (grid 2 [[1, 2, 3], [4]] (\<lambda>x. None) (px [0, 600, 300, 100, 100]) (Some (Fin 2)) 4)
   \<and> imbalance (grid 2 [[1, 2, 3], [4]] (\<lambda>x. None) (px [0, 600, 300, 100, 100]) (Some (Fin 2)) 4)
       = 900
   \<and> map_option (\<lambda>r. (columns (state_of r), imbalance (state_of r)))
        (evenBottom (grid 2 [[1, 2, 3], [4]] (\<lambda>x. None) (px [0, 600, 300, 100, 100])
                       (Some (Fin 2)) 4))
       = Some ([[1, 2], [4, 3]], 700)
   \<and> (\<exists>r. evenBottom (grid 2 [[1, 2, 3], [4]] (\<lambda>x. None) (px [0, 600, 300, 100, 100])
                        (Some (Fin 2)) 4) = Some r
          \<and> imbalance (state_of r) \<le> 900)"
proof -
  let ?g = "grid 2 [[1, 2, 3], [4]] (\<lambda>x. None) (px [0, 600, 300, 100, 100]) (Some (Fin 2)) 4"
  have f: "fits_rounds 1 ?g" by code_simp
  have i: "imbalance ?g = 900" by code_simp
  have e: "map_option (\<lambda>r. (columns (state_of r), imbalance (state_of r))) (evenBottom ?g)
             = Some ([[1, 2], [4, 3]], 700)"
    by code_simp
  have c: "cache_cols (cache ?g) = Fin 2" and d: "distinct (concat (columns ?g))"
    by (simp_all add: grid_def)
  have f': "fits_rounds (nat (- ((- 2) div 2))) ?g" using f by simp
  from evenBottom_never_worse [OF c d f'] i
  have "\<exists>r. evenBottom ?g = Some r \<and> imbalance (state_of r) \<le> 900" by simp
  then show ?thesis using f i e by blast
qed

text \<open>
  C7 as stated fails when the element moved is higher than the imbalance. Two columns
  holding one element each, of heights 1000 and 100: there are 2 elements and the
  imbalance 900 is above 500, so the loop runs; it moves the element of height 1000, and
  the imbalance is 1100 afterwards.
\<close>

theorem evenBottom_worse_counterexample:
  "length (find_items (grid 2 [[1], [2]] (\<lambda>x. None) (px [0, 1000, 100]) (Some (Fin 2)) 2)) = 2
   \<and> imbalance (grid 2 [[1], [2]] (\<lambda>x. None) (px [0, 1000, 100]) (Some (Fin 2)) 2) = 900
   \<and> map_option (\<lambda>r. (columns (state_of r), imbalance (state_of r)))
        (evenBottom (grid 2 [[1], [2]] (\<lambda>x. None) (px [0, 1000, 100]) (Some (Fin 2)) 2))
       = Some ([[], [2, 1]], 1100)"
  by code_simp


section \<open>Placing a batch of elements\<close>

lemma createColumns_loop_value:
  assumes "c \<noteq> PInf"
  shows "createColumns_loop c cs = Some (replicate (ncols c) [] @ cs)"
proof (cases c)
  case (Fin k)
  show ?thesis
  proof (cases "0 < k")
    case True
    then have "createColumns_loop (Fin (int (nat k))) cs = Some (replicate (nat k) [] @ cs)"
      by (intro createColumns_loop_Fin)
    then show ?thesis using True Fin by (simp add: ncols_def)
  next
    case False
    then show ?thesis using Fin by (simp add: createColumns_loop_none js_gt_def ncols_def)
  qed
qed (use assms in \<open>simp_all add: createColumns_loop_none js_gt_def ncols_def\<close>)

lemma moveItem_frame:
  "settings (moveItem s p) = settings s"
  "cache_cols (cache (moveItem s p)) = cache_cols (cache s)"
  "itemIndex (cache (moveItem s p)) = itemIndex (cache s) + 1"
  "height (moveItem s p) = height s"
  "elWidth (moveItem s p) = elWidth s"
  "refWidth (moveItem s p) = refWidth s"
  "cssWidth (moveItem s p) = cssWidth s"
  "clearer (moveItem s p) = clearer s"
  "length (columns (moveItem s p)) = length (columns s)"
  "sortIndex (moveItem s p) = (sortIndex s)(snd p := Some (itemIndex (cache s)))"
  by (cases p; simp add: moveItem_def Let_def appendTo_def detach_def split: option.splits)+

lemma moveItem_swap:
  "moveItem (s\<lparr>loose := lo, sortIndex := f\<rparr>) (i, x) =
     (moveItem s (i, x))
       \<lparr>loose := (if find_col (columns s) (nextCol s i) = None then lo else removeAll x lo),
        sortIndex := f(x := Some (itemIndex (cache s)))\<rparr>"
  by (simp add: moveItem_def Let_def appendTo_def detach_def nextCol_def split: option.splits)


lemma find_col_less: "find_col cs num = Some c \<Longrightarrow> c < length cs"
  by (auto simp: find_col_def split: jsnum.splits if_splits)

lemma moveItem_columns:
  "columns (moveItem s (i, x)) =
     (case find_col (columns s) (nextCol s i) of
        None \<Rightarrow> columns s
      | Some c \<Rightarrow> (map (removeAll x) (columns s))[c := removeAll x (columns s ! c) @ [x]])"
proof (cases "find_col (columns s) (nextCol s i)")
  case None
  then show ?thesis by (simp add: moveItem_def Let_def)
next
  case (Some c)
  then have "c < length (columns s)" by (rule find_col_less)
  then show ?thesis using Some
    by (simp add: moveItem_def Let_def appendTo_column)
qed

lemma set_concat_update_snoc:
  "c < length cs \<Longrightarrow>
   set (concat ((map (removeAll x) cs)[c := removeAll x (cs ! c) @ [x]]))
     \<subseteq> set (concat cs) \<union> {x}"
proof -
  assume c: "c < length cs"
  have "mset (concat ((map (removeAll x) cs)[c := (map (removeAll x) cs) ! c @ [x]]))
          = add_mset x (mset (concat (map (removeAll x) cs)))"
    using c by (intro mset_concat_snoc_update) simp
  then have "set (concat ((map (removeAll x) cs)[c := (map (removeAll x) cs) ! c @ [x]]))
          = insert x (set (concat (map (removeAll x) cs)))"
    by (metis set_mset_add_mset_insert set_mset_mset)
  moreover have "set (concat (map (removeAll x) cs)) \<subseteq> set (concat cs)" by auto
  ultimately show ?thesis using c by auto
qed

lemma moveItems_swap:
  "\<exists>M. M \<subseteq> set xs
     \<and> (\<forall>lo f. foldl moveItem (s\<lparr>loose := lo, sortIndex := f\<rparr>) (enumerate k xs) =
          (foldl moveItem s (enumerate k xs))
            \<lparr>loose := filter (\<lambda>y. y \<notin> M) lo,
             sortIndex := renumber f (itemIndex (cache s)) xs\<rparr>)
     \<and> set (concat (columns (foldl moveItem s (enumerate k xs))))
           \<subseteq> set (concat (columns s)) \<union> M
     \<and> (distinct xs \<longrightarrow> set xs \<inter> set (concat (columns s)) = {} \<longrightarrow>
          mset (concat (columns (foldl moveItem s (enumerate k xs))))
            = mset (concat (columns s)) + mset (filter (\<lambda>y. y \<in> M) xs))"
proof (induction xs arbitrary: s k)
  case Nil
  show ?case by (rule exI [of _ "{}"]) simp
next
  case (Cons x xs)
  define s1 where "s1 = moveItem s (k, x)"
  define X where "X = (if find_col (columns s) (nextCol s k) = None then {} else {x})"
  from Cons.IH [of s1 "Suc k"] obtain M1 where
    sub: "M1 \<subseteq> set xs"
    and swap: "\<And>lo f. foldl moveItem (s1\<lparr>loose := lo, sortIndex := f\<rparr>) (enumerate (Suc k) xs) =
          (foldl moveItem s1 (enumerate (Suc k) xs))
            \<lparr>loose := filter (\<lambda>y. y \<notin> M1) lo,
             sortIndex := renumber f (itemIndex (cache s1)) xs\<rparr>"
    and cols: "set (concat (columns (foldl moveItem s1 (enumerate (Suc k) xs))))
           \<subseteq> set (concat (columns s1)) \<union> M1"
    and ms: "distinct xs \<longrightarrow> set xs \<inter> set (concat (columns s1)) = {} \<longrightarrow>
          mset (concat (columns (foldl moveItem s1 (enumerate (Suc k) xs))))
            = mset (concat (columns s1)) + mset (filter (\<lambda>y. y \<in> M1) xs)"
    by blast
  have idx: "itemIndex (cache s1) = Suc (itemIndex (cache s))"
    by (simp add: s1_def moveItem_frame)
  have cols1: "set (concat (columns s1)) \<subseteq> set (concat (columns s)) \<union> X"
  proof (cases "find_col (columns s) (nextCol s k)")
    case None
    then show ?thesis by (simp add: s1_def moveItem_columns)
  next
    case (Some c)
    then have "c < length (columns s)" by (rule find_col_less)
    from set_concat_update_snoc [OF this, of x] show ?thesis
      using Some by (simp add: s1_def moveItem_columns X_def)
  qed
  let ?M = "X \<union> M1"
  have 1: "?M \<subseteq> set (x # xs)" using sub by (auto simp: X_def)
  have 2: "foldl moveItem (s\<lparr>loose := lo, sortIndex := f\<rparr>) (enumerate k (x # xs)) =
          (foldl moveItem s (enumerate k (x # xs)))
            \<lparr>loose := filter (\<lambda>y. y \<notin> ?M) lo,
             sortIndex := renumber f (itemIndex (cache s)) (x # xs)\<rparr>" for lo f
  proof -
    have "filter (\<lambda>y. y \<notin> M1) (if find_col (columns s) (nextCol s k) = None then lo
                                 else removeAll x lo) = filter (\<lambda>y. y \<notin> ?M) lo"
      by (auto simp: X_def removeAll_filter_not_eq intro: filter_cong)
    then show ?thesis
      by (simp add: moveItem_swap swap idx flip: s1_def)
  qed
  have 3: "set (concat (columns (foldl moveItem s (enumerate k (x # xs)))))
           \<subseteq> set (concat (columns s)) \<union> ?M"
    using cols cols1 by (auto simp flip: s1_def)
  have 4: "mset (concat (columns (foldl moveItem s (enumerate k (x # xs)))))
            = mset (concat (columns s)) + mset (filter (\<lambda>y. y \<in> ?M) (x # xs))"
    if d: "distinct (x # xs)" and disj: "set (x # xs) \<inter> set (concat (columns s)) = {}"
  proof -
    have xs: "x \<notin> set xs" "distinct xs" using d by simp_all
    have xM1: "x \<notin> M1" using sub xs(1) by auto
    have "X \<subseteq> {x}" by (simp add: X_def)
    with cols1 have "set (concat (columns s1)) \<subseteq> set (concat (columns s)) \<union> {x}"
      by blast
    moreover have "set xs \<inter> set (concat (columns s)) = {}" using disj by auto
    ultimately have "set xs \<inter> set (concat (columns s1)) = {}"
      using xs(1) by blast
    with ms xs(2) have m: "mset (concat (columns (foldl moveItem s1 (enumerate (Suc k) xs))))
            = mset (concat (columns s1)) + mset (filter (\<lambda>y. y \<in> M1) xs)"
      by simp
    have f: "filter (\<lambda>y. y \<in> ?M) xs = filter (\<lambda>y. y \<in> M1) xs"
      using xs(1) by (auto simp: X_def intro: filter_cong)
    show ?thesis
    proof (cases "find_col (columns s) (nextCol s k)")
      case None
      then have "columns s1 = columns s" "X = {}"
        by (simp_all add: s1_def moveItem_columns X_def)
      then show ?thesis using m f xM1 by (simp flip: s1_def)
    next
      case (Some c)
      then have c: "c < length (columns s)" by (rule find_col_less)
      have "x \<notin> set (concat (columns s))" using disj by auto
      then have "map (removeAll x) (columns s) = columns s"
        by (auto simp: map_idI)
      moreover have "x \<notin> set (columns s ! c)"
        using \<open>x \<notin> set (concat (columns s))\<close> set_nth_concat [OF c] by blast
      ultimately have "columns s1 = (columns s)[c := columns s ! c @ [x]]"
        using Some c by (simp add: s1_def moveItem_columns)
      then have "mset (concat (columns s1)) = add_mset x (mset (concat (columns s)))"
        using c by (simp add: mset_concat_snoc_update)
      moreover have "X = {x}" using Some by (simp add: X_def)
      ultimately show ?thesis using m f by (simp flip: s1_def)
    qed
  qed
  show ?case
    using 1 2 3 4 by (intro exI [of _ ?M]) blast
qed


lemma renumber_outside: "x \<notin> set xs \<Longrightarrow> renumber f k xs x = f x"
  by (induction xs arbitrary: f k) auto

lemma renumber_cong:
  "(\<And>x. x \<notin> set xs \<Longrightarrow> f x = g x) \<Longrightarrow> renumber f k xs = renumber g k xs"
proof (induction xs arbitrary: f g k)
  case Nil
  then show ?case by auto
next
  case (Cons x xs)
  show ?case
    using Cons.prems by (auto intro!: Cons.IH)
qed

lemma renumber_idem: "renumber (renumber f k xs) k xs = renumber f k xs"
  by (rule renumber_cong) (rule renumber_outside)

lemma renumber_nth:
  "distinct xs \<Longrightarrow> j < length xs \<Longrightarrow> renumber f k xs (xs ! j) = Some (k + j)"
proof (induction xs arbitrary: f k j)
  case Nil
  then show ?case by simp
next
  case (Cons x xs)
  show ?case
  proof (cases j)
    case 0
    then show ?thesis using Cons.prems by (simp add: renumber_outside)
  next
    case (Suc j')
    with Cons.prems have "distinct xs" "j' < length xs" by simp_all
    then have "renumber (f(x := Some k)) (Suc k) xs (xs ! j') = Some (Suc k + j')"
      by (rule Cons.IH)
    then show ?thesis using Suc by simp
  qed
qed

lemma mset_insert_by: "mset (insert_by f x ys) = add_mset x (mset ys)"
  by (induction ys) simp_all

lemma mset_sortItemsByIndex: "mset (sortItemsByIndex s xs) = mset xs"
  by (induction xs) (simp_all add: sortItemsByIndex_def mset_insert_by)

lemma insert_by_insort_key:
  assumes "f x \<noteq> None" and "\<forall>y \<in> set ys. f y \<noteq> None"
  shows "insert_by f x ys = insort_key (key_of f) x ys"
  using assms
  by (induction ys)
     (auto simp: key_of_def parseInt_def compare_index_def js_gt_def split: option.splits)

lemma sort_insort_key:
  assumes "\<forall>y \<in> set xs. f y \<noteq> None"
  shows "foldr (insert_by f) xs [] = sort_key (key_of f) xs"
  using assms
proof (induction xs)
  case Nil
  show ?case by simp
next
  case (Cons x xs)
  then have "foldr (insert_by f) xs [] = sort_key (key_of f) xs" by simp
  moreover have "\<forall>y \<in> set (sort_key (key_of f) xs). f y \<noteq> None" using Cons.prems by simp
  ultimately show ?case using Cons.prems by (simp add: insert_by_insort_key)
qed

lemma sort_renumbered:
  assumes d: "distinct L" and idx: "\<forall>j < length L. f (L ! j) = Some j"
    and m: "mset xs = mset L"
  shows "foldr (insert_by f) xs [] = L"
proof -
  have set: "set xs = set L" using m by (rule mset_eq_setD)
  have some: "\<forall>y \<in> set xs. f y \<noteq> None"
    using idx set by (auto simp: in_set_conv_nth)
  have keys: "map (key_of f) L = [0..<length L]"
    using idx by (intro nth_equalityI) (simp_all add: key_of_def)
  have "sort_key (key_of f) xs = L"
  proof (rule sort_key_inj_key_eq [OF m])
    show "inj_on (key_of f) (set xs)"
      unfolding set using keys d by (metis distinct_map distinct_upt)
    show "sorted (map (key_of f) L)" using keys by simp
  qed
  then show ?thesis using some by (simp add: sort_insort_key)
qed


lemma concat_replicate_Nil [simp]: "concat (replicate n []) = []"
  by (induction n) simp_all

lemma getContainerWidth_cong:
  "settings s' = settings s \<Longrightarrow> elWidth s' = elWidth s \<Longrightarrow> refWidth s' = refWidth s \<Longrightarrow>
   getContainerWidth s' = getContainerWidth s"
  by (simp add: getContainerWidth_def getColumnCount_def Let_def)

lemma find_items_cong:
  "settings s' = settings s \<Longrightarrow> columns s' = columns s \<Longrightarrow> loose s' = loose s \<Longrightarrow>
   find_items s' = find_items s"
  by (simp add: find_items_def split: option.splits)

lemma find_items_start: "find_items (relayout_start s) = find_items s"
proof (cases "selector (settings s)")
  case None
  then show ?thesis by (simp add: find_items_def relayout_start_def)
next
  case (Some sel)
  then have "filter (\<lambda>x. x \<notin> set (find_items s)) (loose s) = []"
    by (auto simp: find_items_def filter_empty_conv)
  then show ?thesis using Some by (simp add: find_items_def relayout_start_def)
qed

lemma reLayout_eq:
  assumes "cols (settings s) \<noteq> PInf"
  shows "reLayout s =
     Some (moveItemsIntoCols (sortItemsByIndex s (find_items s)) (relayout_start s))"
proof -
  define F where "F = find_items s"
  define s1 where "s1 = s\<lparr>columns := map (filter (\<lambda>x. x \<notin> set F)) (columns s),
                          loose := filter (\<lambda>x. x \<notin> set F) (loose s) @ F\<rparr>"
  define s2 where "s2 = s1\<lparr>columns := []\<rparr>"
  define s3 where "s3 = (if centered (settings s2) then setContainerWidth s2 else s2)"
  define s4 where "s4 = s3\<lparr>columns := replicate (ncols (cols (settings s))) []\<rparr>"
  have r: "reLayout s = (case createColumns s3 of None \<Rightarrow> None
      | Some s4 \<Rightarrow> Some (moveItemsIntoCols (sortItemsByIndex s4 (find_items s4))
                          (s4\<lparr>cache := (cache s4)\<lparr>itemIndex := 0, lastColAppended := None\<rparr>\<rparr>)))"
    unfolding reLayout_def Let_def s3_def s2_def s1_def F_def by (rule refl)
  have w: "getContainerWidth s2 = getContainerWidth s"
    by (rule getContainerWidth_cong) (simp_all add: s2_def s1_def)
  have f3: "settings s3 = settings s" "cache s3 = cache s" "columns s3 = []"
    "loose s3 = filter (\<lambda>x. x \<notin> set F) (loose s) @ F" "sortIndex s3 = sortIndex s"
    "height s3 = height s" "elWidth s3 = elWidth s" "refWidth s3 = refWidth s"
    "clearer s3 = clearer s"
    "cssWidth s3 = (if centered (settings s) then Some (getContainerWidth s) else cssWidth s)"
    using w by (simp_all add: s3_def s2_def s1_def setContainerWidth_def)
  have c: "createColumns s3 = Some s4"
    using assms by (simp add: createColumns_def createColumns_loop_value f3 s4_def)
  have start: "s4\<lparr>cache := (cache s4)\<lparr>itemIndex := 0, lastColAppended := None\<rparr>\<rparr>
               = relayout_start s"
    by (rule lace.equality) (simp_all add: s4_def f3 relayout_start_def F_def)
  have "find_items s4 = find_items (relayout_start s)"
    by (rule find_items_cong) (simp_all add: relayout_start_def s4_def f3 F_def)
  then have f: "find_items s4 = find_items s" by (simp add: find_items_start)
  have srt: "sortItemsByIndex s4 (find_items s) = sortItemsByIndex s (find_items s)"
    by (simp add: sortItemsByIndex_def s4_def f3)
  show ?thesis
    unfolding r c using f srt start by simp
qed

lemma foldl_moveItem_frame:
  "settings (foldl moveItem s ps) = settings s"
  "cache_cols (cache (foldl moveItem s ps)) = cache_cols (cache s)"
  "itemIndex (cache (foldl moveItem s ps)) = itemIndex (cache s) + length ps"
  "height (foldl moveItem s ps) = height s"
  "elWidth (foldl moveItem s ps) = elWidth s"
  "refWidth (foldl moveItem s ps) = refWidth s"
  "cssWidth (foldl moveItem s ps) = cssWidth s"
  "clearer (foldl moveItem s ps) = clearer s"
  "length (columns (foldl moveItem s ps)) = length (columns s)"
  by (induction ps arbitrary: s; simp add: moveItem_frame)+

lemma moveItemsIntoCols_result:
  "\<exists>M. M \<subseteq> set xs
     \<and> loose (moveItemsIntoCols xs s) = filter (\<lambda>y. y \<notin> M) (loose s)
     \<and> sortIndex (moveItemsIntoCols xs s) = renumber (sortIndex s) (itemIndex (cache s)) xs
     \<and> (\<forall>lo f. moveItemsIntoCols xs (s\<lparr>loose := lo, sortIndex := f\<rparr>) =
          (moveItemsIntoCols xs s)
            \<lparr>loose := filter (\<lambda>y. y \<notin> M) lo,
             sortIndex := renumber f (itemIndex (cache s)) xs\<rparr>)
     \<and> set (concat (columns (moveItemsIntoCols xs s))) \<subseteq> set (concat (columns s)) \<union> M
     \<and> (distinct xs \<longrightarrow> set xs \<inter> set (concat (columns s)) = {} \<longrightarrow>
          mset (concat (columns (moveItemsIntoCols xs s)))
            = mset (concat (columns s)) + mset (filter (\<lambda>y. y \<in> M) xs))"
proof -
  from moveItems_swap [of xs s 0] obtain M where
    M: "M \<subseteq> set xs"
    "\<And>lo f. foldl moveItem (s\<lparr>loose := lo, sortIndex := f\<rparr>) (enumerate 0 xs) =
          (foldl moveItem s (enumerate 0 xs))
            \<lparr>loose := filter (\<lambda>y. y \<notin> M) lo,
             sortIndex := renumber f (itemIndex (cache s)) xs\<rparr>"
    "set (concat (columns (foldl moveItem s (enumerate 0 xs))))
           \<subseteq> set (concat (columns s)) \<union> M"
    "distinct xs \<longrightarrow> set xs \<inter> set (concat (columns s)) = {} \<longrightarrow>
          mset (concat (columns (foldl moveItem s (enumerate 0 xs))))
            = mset (concat (columns s)) + mset (filter (\<lambda>y. y \<in> M) xs)"
    by blast
  from M(2) [where lo = "loose s" and f = "sortIndex s"]
  have self: "foldl moveItem s (enumerate 0 xs) =
          (foldl moveItem s (enumerate 0 xs))
            \<lparr>loose := filter (\<lambda>y. y \<notin> M) (loose s),
             sortIndex := renumber (sortIndex s) (itemIndex (cache s)) xs\<rparr>"
    by simp
  have "loose (foldl moveItem s (enumerate 0 xs)) = filter (\<lambda>y. y \<notin> M) (loose s)"
    by (subst self) simp
  moreover have "sortIndex (foldl moveItem s (enumerate 0 xs))
                   = renumber (sortIndex s) (itemIndex (cache s)) xs"
    by (subst self) simp
  ultimately show ?thesis
    using M unfolding moveItemsIntoCols_def by (intro exI [of _ M]) blast
qed



section \<open>Relayout\<close>

lemma moveItemsIntoCols_frame:
  "settings (moveItemsIntoCols xs s) = settings s"
  "cache_cols (cache (moveItemsIntoCols xs s)) = cache_cols (cache s)"
  "itemIndex (cache (moveItemsIntoCols xs s)) = itemIndex (cache s) + length xs"
  "height (moveItemsIntoCols xs s) = height s"
  "elWidth (moveItemsIntoCols xs s) = elWidth s"
  "refWidth (moveItemsIntoCols xs s) = refWidth s"
  "cssWidth (moveItemsIntoCols xs s) = cssWidth s"
  "clearer (moveItemsIntoCols xs s) = clearer s"
  "length (columns (moveItemsIntoCols xs s)) = length (columns s)"
  by (simp_all add: moveItemsIntoCols_def foldl_moveItem_frame)

lemma relayout_start_fields:
  "settings (relayout_start s) = settings s"
  "cache_cols (cache (relayout_start s)) = cache_cols (cache s)"
  "itemIndex (cache (relayout_start s)) = 0"
  "lastColAppended (cache (relayout_start s)) = None"
  "columns (relayout_start s) = replicate (ncols (cols (settings s))) []"
  "sortIndex (relayout_start s) = sortIndex s"
  "height (relayout_start s) = height s"
  "elWidth (relayout_start s) = elWidth s"
  "refWidth (relayout_start s) = refWidth s"
  "clearer (relayout_start s) = clearer s"
  "cssWidth (relayout_start s) =
     (if centered (settings s) then Some (getContainerWidth s) else cssWidth s)"
  by (simp_all add: relayout_start_def)

lemma distinct_sortItemsByIndex:
  "distinct (sortItemsByIndex s xs) \<longleftrightarrow> distinct xs"
  by (rule mset_eq_imp_distinct_iff) (rule mset_sortItemsByIndex)

text \<open>
  Where every element sorted has an index and the indices differ, the ascending
  arrangement is unique: whatever the engine's algorithm, its result is that of the model.
\<close>

lemma sortItemsByIndex_sort_key:
  assumes "\<forall>y \<in> set xs. sortIndex s y \<noteq> None"
  shows "sortItemsByIndex s xs = sort_key (key_of (sortIndex s)) xs"
  using assms by (simp add: sortItemsByIndex_def sort_insort_key)

lemma sortItemsByIndex_determined:
  assumes "\<forall>y \<in> set xs. sortIndex s y \<noteq> None"
    and "inj_on (key_of (sortIndex s)) (set xs)"
    and "mset ys = mset xs" and "sorted (map (key_of (sortIndex s)) ys)"
  shows "ys = sortItemsByIndex s xs"
proof -
  have "sort_key (key_of (sortIndex s)) xs = ys"
    using assms(3) [symmetric] assms(2,4) by (rule sort_key_inj_key_eq)
  then show ?thesis using assms(1) by (simp add: sortItemsByIndex_sort_key)
qed





text \<open>
  C2. For every grid whose column count is not \<open>Infinity\<close> and whose elements each
  stand in one place, \<open>_reLayout\<close> returns, and a second \<open>_reLayout\<close> right after it
  returns the very same state: the same elements in the same columns, and the same
  indices and counters.
\<close>

theorem reLayout_idempotent:
  assumes "cols (settings s) \<noteq> PInf" and "distinct (find_items s)"
  shows "\<exists>s'. reLayout s = Some s' \<and> reLayout s' = Some s'"
proof -
  define F where "F = find_items s"
  define L where "L = sortItemsByIndex s F"
  define b where "b = relayout_start s"
  define s' where "s' = moveItemsIntoCols L b"
  have r: "reLayout s = Some s'"
    using assms(1) by (simp add: reLayout_eq s'_def L_def b_def F_def)
  have mL: "mset L = mset F" by (simp add: L_def mset_sortItemsByIndex)
  have dL: "distinct L" using assms(2) by (simp add: L_def F_def distinct_sortItemsByIndex)
  from moveItemsIntoCols_result [of L b] obtain M where
    M: "M \<subseteq> set L"
    and lo: "loose s' = filter (\<lambda>y. y \<notin> M) (loose b)"
    and idx: "sortIndex s' = renumber (sortIndex s) 0 L"
    and swap: "\<And>lo f. moveItemsIntoCols L (b\<lparr>loose := lo, sortIndex := f\<rparr>) =
          s'\<lparr>loose := filter (\<lambda>y. y \<notin> M) lo, sortIndex := renumber f 0 L\<rparr>"
    and cs: "set (concat (columns s')) \<subseteq> M"
    and ms: "mset (concat (columns s')) = mset (filter (\<lambda>y. y \<in> M) L)"
    using dL by (auto simp: s'_def b_def relayout_start_fields)
  have fr: "settings s' = settings s" "cache_cols (cache s') = cache_cols (cache s)"
    "height s' = height s" "elWidth s' = elWidth s" "refWidth s' = refWidth s"
    "clearer s' = clearer s" "cssWidth s' = cssWidth b"
    by (simp_all add: s'_def b_def moveItemsIntoCols_frame relayout_start_fields)
  define F' where "F' = find_items s'"
  define lo' where "lo' = filter (\<lambda>x. x \<notin> set F') (loose s') @ F'"
  have A: "filter (\<lambda>y. y \<notin> M) lo' = loose s'" and B: "mset F' = mset L"
  proof -
    show "filter (\<lambda>y. y \<notin> M) lo' = loose s'"
    proof (cases "selector (settings s)")
      case None
      then have "F = []" "F' = []" by (simp_all add: F_def F'_def find_items_def fr)
      then have "L = []" by (simp add: L_def sortItemsByIndex_def)
      then have "M = {}" using M by simp
      then show ?thesis using \<open>F' = []\<close> by (simp add: lo'_def)
    next
      case (Some sel)
      then have F': "F' = concat (columns s') @ loose s'"
        by (simp add: F'_def find_items_def fr)
      then have "filter (\<lambda>x. x \<notin> set F') (loose s') = []"
        by (auto simp: filter_empty_conv)
      then have "lo' = concat (columns s') @ loose s'" using F' by (simp add: lo'_def)
      moreover have "filter (\<lambda>y. y \<notin> M) (concat (columns s')) = []"
        using cs by (auto simp: filter_empty_conv)
      ultimately show ?thesis by (simp add: lo)
    qed
    show "mset F' = mset L"
    proof (cases "selector (settings s)")
      case None
      then have "F = []" "F' = []" by (simp_all add: F_def F'_def find_items_def fr)
      then show ?thesis by (simp add: L_def sortItemsByIndex_def)
    next
      case (Some sel)
      then have F': "F' = concat (columns s') @ loose s'"
        by (simp add: F'_def find_items_def fr)
      have "find_items b = F" by (simp add: b_def F_def find_items_start)
      then have "concat (columns b) @ loose b = F"
        using Some by (simp add: find_items_def b_def relayout_start_fields)
      then have "loose b = F" by (simp add: b_def relayout_start_fields)
      then have "mset F' = filter_mset (\<lambda>y. y \<in> M) (mset L) + filter_mset (\<lambda>y. y \<notin> M) (mset F)"
        using F' ms lo by simp
      then show ?thesis using mL by simp
    qed
  qed
  have idx': "\<forall>j < length L. sortIndex s' (L ! j) = Some j"
    using dL by (simp add: idx renumber_nth)
  have L': "sortItemsByIndex s' F' = L"
    unfolding sortItemsByIndex_def using dL idx' B by (rule sort_renumbered)
  have C: "relayout_start s' = b\<lparr>loose := lo', sortIndex := sortIndex s'\<rparr>"
  proof (rule lace.equality)
    show "cache (relayout_start s') = cache (b\<lparr>loose := lo', sortIndex := sortIndex s'\<rparr>)"
      by (rule cache.equality) (simp_all add: relayout_start_def b_def fr)
    show "cssWidth (relayout_start s') = cssWidth (b\<lparr>loose := lo', sortIndex := sortIndex s'\<rparr>)"
      using getContainerWidth_cong [OF fr(1) fr(4) fr(5)]
      by (simp add: relayout_start_fields fr b_def)
  qed (simp_all add: relayout_start_def b_def fr lo'_def F'_def)
  have "cols (settings s') \<noteq> PInf" using assms(1) fr by simp
  then have "reLayout s' = Some (moveItemsIntoCols (sortItemsByIndex s' F') (relayout_start s'))"
    by (simp add: reLayout_eq F'_def)
  also have "\<dots> = Some (s'\<lparr>loose := filter (\<lambda>y. y \<notin> M) lo',
                            sortIndex := renumber (sortIndex s') 0 L\<rparr>)"
    by (simp add: L' C swap)
  also have "\<dots> = Some s'"
    by (simp add: A) (simp add: idx renumber_idem)
  finally show ?thesis using r by blast
qed


text \<open>
  Three columns with the elements 1, 2, 3 in the first and 4 in the second, of indices
  0 to 3: a relayout deals them out as 1 and 4, 2, 3, and so does a second one.
\<close>

theorem reLayout_idempotent_witness:
  "cols (settings (grid 3 [[1, 2, 3], [4], []] (ix [None, Some 0, Some 1, Some 2, Some 3])
                     (px [0, 100, 100, 100, 100]) (Some (Fin 1)) 4)) \<noteq> PInf
   \<and> distinct (find_items (grid 3 [[1, 2, 3], [4], []] (ix [None, Some 0, Some 1, Some 2, Some 3])
                             (px [0, 100, 100, 100, 100]) (Some (Fin 1)) 4))
   \<and> map_option columns
        (reLayout (grid 3 [[1, 2, 3], [4], []] (ix [None, Some 0, Some 1, Some 2, Some 3])
                     (px [0, 100, 100, 100, 100]) (Some (Fin 1)) 4))
       = Some [[1, 4], [2], [3]]
   \<and> map_option columns
        (Option.bind (reLayout (grid 3 [[1, 2, 3], [4], []]
                                  (ix [None, Some 0, Some 1, Some 2, Some 3])
                                  (px [0, 100, 100, 100, 100]) (Some (Fin 1)) 4)) reLayout)
       = Some [[1, 4], [2], [3]]
   \<and> (\<exists>s'. reLayout (grid 3 [[1, 2, 3], [4], []] (ix [None, Some 0, Some 1, Some 2, Some 3])
                         (px [0, 100, 100, 100, 100]) (Some (Fin 1)) 4) = Some s'
          \<and> reLayout s' = Some s')"
proof -
  let ?g = "grid 3 [[1, 2, 3], [4], []] (ix [None, Some 0, Some 1, Some 2, Some 3])
              (px [0, 100, 100, 100, 100]) (Some (Fin 1)) 4"
  have c: "cols (settings ?g) \<noteq> PInf" by (simp add: grid_def)
  have d: "distinct (find_items ?g)" by code_simp
  have e1: "map_option columns (reLayout ?g) = Some [[1, 4], [2], [3]]" by code_simp
  have e2: "map_option columns (Option.bind (reLayout ?g) reLayout) = Some [[1, 4], [2], [3]]"
    by code_simp
  from reLayout_idempotent [OF c d] show ?thesis using c d e1 e2 by blast
qed



end
